theory Spec2Isabelle
  imports Main "HOL-Library.Sublist"
begin

section \<open>JavaScript strings\<close>

text \<open>
  The tool is written in JavaScript. A string is modelled as a \<open>char list\<close> over the
  ASCII range: \<open>toUpperCase\<close> and \<open>toLowerCase\<close> act on the letters a-z and A-Z,
  the regular-expression class \<open>\w\<close> is \<open>[A-Za-z0-9_]\<close> and \<open>\s\<close> is tab, line feed,
  vertical tab, form feed, carriage return and space. Code points beyond ASCII are outside
  the model.
\<close>

definition is_upper_char :: "char \<Rightarrow> bool" where
  "is_upper_char c = (65 \<le> (of_char c :: nat) \<and> (of_char c :: nat) \<le> 90)"

definition is_lower_char :: "char \<Rightarrow> bool" where
  "is_lower_char c = (97 \<le> (of_char c :: nat) \<and> (of_char c :: nat) \<le> 122)"

definition is_digit_char :: "char \<Rightarrow> bool" where
  "is_digit_char c = (48 \<le> (of_char c :: nat) \<and> (of_char c :: nat) \<le> 57)"

definition is_word_char :: "char \<Rightarrow> bool" where
  "is_word_char c = (is_upper_char c \<or> is_lower_char c \<or> is_digit_char c \<or> c = CHR ''_'')"

definition is_space :: "char \<Rightarrow> bool" where
  "is_space c = ((9 \<le> (of_char c :: nat) \<and> (of_char c :: nat) \<le> 13) \<or> c = CHR '' '')"

definition upper_char :: "char \<Rightarrow> char" where
  "upper_char c = (if is_lower_char c then char_of ((of_char c :: nat) - 32) else c)"

definition lower_char :: "char \<Rightarrow> char" where
  "lower_char c = (if is_upper_char c then char_of ((of_char c :: nat) + 32) else c)"

definition toUpperCase :: "string \<Rightarrow> string" where
  "toUpperCase s = map upper_char s"

definition toLowerCase :: "string \<Rightarrow> string" where
  "toLowerCase s = map lower_char s"

text \<open>\<open>s.includes(t)\<close>: \<open>t\<close> occurs in \<open>s\<close> as a contiguous substring.\<close>

definition str_includes :: "string \<Rightarrow> string \<Rightarrow> bool" where
  "str_includes s t = sublist t s"

text \<open>
  \<open>s.trim()\<close> removes the whitespace at both ends. \<open>trimEnd\<close> drops a character when
  it is whitespace and nothing but whitespace follows it.
\<close>

fun trimEnd :: "string \<Rightarrow> string" where
  "trimEnd [] = []"
| "trimEnd (c # cs) = (if is_space c \<and> trimEnd cs = [] then [] else c # trimEnd cs)"

definition trim :: "string \<Rightarrow> string" where
  "trim s = trimEnd (dropWhile is_space s)"

text \<open>
  \<open>s.replace(/\s+/g, ' ')\<close>: every maximal run of whitespace becomes one space.
\<close>

function collapse_ws :: "string \<Rightarrow> string" where
  "collapse_ws [] = []"
| "collapse_ws (c # cs) =
     (if is_space c then CHR '' '' # collapse_ws (dropWhile is_space cs)
      else c # collapse_ws cs)"
  by pat_completeness auto
termination
  by (relation "measure length") (auto simp: length_dropWhile_le less_Suc_eq_le)

subsection \<open>Replacing the matches of a word-bounded alternation\<close>

text \<open>
  \<open>s.replace(/\b(p1|p2|...)\b/g, '')\<close>. The assertion \<open>\b\<close> holds between two positions
  exactly one of which is a word character; the ends of the string count as non-word.
  The scan runs from left to right; \<open>prev\<close> records whether the character before the
  current position (in the string being scanned) is a word character. At a position the
  alternatives are tried in the order written and the first one that matches literally
  and is followed by \<open>\b\<close> is taken; the scan resumes after the match. An empty match
  removes nothing and the scan moves on by one character.
\<close>

definition word_boundary :: "bool \<Rightarrow> string \<Rightarrow> bool" where
  "word_boundary prev rest = (prev \<noteq> (case rest of [] \<Rightarrow> False | c # _ \<Rightarrow> is_word_char c))"

definition alt_matches :: "bool \<Rightarrow> string \<Rightarrow> string \<Rightarrow> bool" where
  "alt_matches prev s p =
     (prefix p s \<and>
      word_boundary (if p = [] then prev else is_word_char (last p)) (drop (length p) s))"

definition match_at :: "string list \<Rightarrow> bool \<Rightarrow> string \<Rightarrow> string option" where
  "match_at alts prev s =
     (if word_boundary prev s then find (alt_matches prev s) alts else None)"

function replace_alts :: "string list \<Rightarrow> bool \<Rightarrow> string \<Rightarrow> string" where
  "replace_alts alts prev [] = []"
| "replace_alts alts prev (c # cs) =
     (case match_at alts prev (c # cs) of
        None \<Rightarrow> c # replace_alts alts (is_word_char c) cs
      | Some p \<Rightarrow>
          (if p = [] then c # replace_alts alts (is_word_char c) cs
           else replace_alts alts (is_word_char (last p)) (drop (length p) (c # cs))))"
  by pat_completeness auto
termination
  by (relation "measure (\<lambda>(alts, prev, s). length s)") auto

section \<open>The status catalog\<close>

text \<open>
  \<open>titleCase(str)\<close> of the utilities module:
  \<open>str.toLowerCase().replace(/\b\w/g, l => l.toUpperCase())\<close>. The pattern \<open>\b\w\<close>
  matches a word character whose predecessor is not a word character.
\<close>

fun capitalize_words :: "bool \<Rightarrow> string \<Rightarrow> string" where
  "capitalize_words prev [] = []"
| "capitalize_words prev (c # cs) =
     (if is_word_char c \<and> \<not> prev then upper_char c else c)
       # capitalize_words (is_word_char c) cs"

definition titleCase :: "string \<Rightarrow> string" where
  "titleCase str = (if str = [] then [] else capitalize_words False (toLowerCase str))"

text \<open>The region table of \<open>getCouncilRegion\<close>, in the order of the source.\<close>

definition regions :: "(string \<times> string list) list" where
  "regions =
    [(''Hunter'', [''CENTRAL COAST'', ''CESSNOCK'', ''DUNGOG'', ''LAKE MACQUARIE'', ''MAITLAND'',
        ''MUSWELLBROOK'', ''NEWCASTLE'', ''PORT STEPHENS'', ''SINGLETON'', ''UPPER HUNTER'']),
     (''Illawarra'', [''KIAMA'', ''SHELLHARBOUR'', ''SHOALHAVEN'', ''WINGECARRIBEE'',
        ''WOLLONDILLY'', ''WOLLONGONG'']),
     (''Metro North'', [''HORNSBY'', ''HUNTERS HILL'', ''KU-RING-GAI'', ''LANE COVE'', ''MOSMAN'',
        ''NORTH SYDNEY'', ''NORTHERN BEACHES'', ''RYDE'', ''THE HILLS SHIRE'', ''WILLOUGHBY'']),
     (''Metro South'', [''BAYSIDE'', ''BURWOOD'', ''CANADA BAY'', ''CANTERBURY-BANKSTOWN'',
        ''GEORGES RIVER'', ''INNER WEST'', ''RANDWICK'', ''STRATHFIELD'', ''SUTHERLAND SHIRE'',
        ''SYDNEY'', ''WAVERLEY'', ''WOOLLAHRA'']),
     (''Metro West'', [''BLACKTOWN'', ''BLUE MOUNTAINS'', ''CAMDEN'', ''CAMPBELLTOWN'',
        ''CITY OF PARRAMATTA'', ''CUMBERLAND'', ''FAIRFIELD'', ''HAWKESBURY'', ''LIVERPOOL'',
        ''PENRITH'']),
     (''Mid North Coast'', [''BELLINGEN'', ''COFFS HARBOUR'', ''KEMPSEY'', ''MID-COAST'',
        ''NAMBUCCA VALLEY'', ''PORT MACQUARIE-HASTINGS'']),
     (''North Coast'', [''BALLINA'', ''BYRON'', ''CLARENCE VALLEY'', ''KYOGLE'', ''LISMORE'',
        ''RICHMOND VALLEY'', ''TWEED'']),
     (''Northern Inland'', [''ARMIDALE REGIONAL'', ''GLEN INNES SEVERN'', ''GUNNEDAH'', ''GWYDIR'',
        ''INVERELL'', ''LIVERPOOL PLAINS'', ''MOREE PLAINS'', ''NARRABRI'', ''TAMWORTH REGIONAL'',
        ''TENTERFIELD'', ''URALLA'', ''WALCHA'']),
     (''Central West'', [''BATHURST REGIONAL'', ''BLAYNEY'', ''CABONNE'', ''COWRA'', ''FORBES'',
        ''LACHLAN'', ''LITHGOW CITY'', ''OBERON'', ''ORANGE'', ''PARKES'', ''WEDDIN'']),
     (''Orana'', [''BOGAN'', ''BOURKE'', ''BREWARRINA'', ''BROKEN HILL'', ''CENTRAL DARLING'',
        ''COBAR'', ''COONAMBLE'', ''DUBBO REGIONAL'', ''GILGANDRA'', ''MID-WESTERN REGIONAL'',
        ''NARROMINE'', ''WALGETT'', ''WARREN'', ''WARRUMBUNGLE'']),
     (''South East'', [''BEGA VALLEY'', ''EUROBODALLA'', ''GOULBURN MULWAREE'',
        ''QUEANBEYAN-PALERANG REGIONAL'', ''SNOWY MONARO REGIONAL'', ''UPPER LACHLAN SHIRE'',
        ''YASS VALLEY'']),
     (''South West'', [''ALBURY CITY'', ''BALRANALD'', ''BERRIGAN'', ''BLAND'', ''CARRATHOOL'',
        ''COOLAMON'', ''COOTAMUNDRA-GUNDAGAI REGIONAL'', ''EDWARD RIVER'', ''FEDERATION'',
        ''GREATER HUME SHIRE'', ''GRIFFITH'', ''HAY'', ''HILLTOPS'', ''JUNEE'', ''LEETON'',
        ''LOCKHART'', ''MURRAY RIVER'', ''MURRUMBIDGEE'', ''NARRANDERA'', ''SNOWY VALLEYS'',
        ''TEMORA'', ''WAGGA WAGGA'', ''WENTWORTH''])]"

definition getCouncilRegion :: "string \<Rightarrow> string" where
  "getCouncilRegion councilName =
     (case find (\<lambda>(region, councils). toUpperCase councilName \<in> set councils) regions of
        Some (region, councils) \<Rightarrow> region
      | None \<Rightarrow> ''Other'')"

text \<open>
  The raw catalog is a JSON object from council names to entries. An entry is an object
  whose fields \<open>sgars\<close>, \<open>notes\<close> and \<open>email\<close> are strings or absent (\<open>None\<close>); an
  entry that is \<open>null\<close> is \<open>None\<close>. The object is listed in the order of
  \<open>Object.entries\<close>.
\<close>

record raw_council =
  sgars :: "string option"
  data_notes :: "string option"
  email :: "string option"

type_synonym council_data = "(string \<times> raw_council option) list"

text \<open>
  A council record as the \<open>SGARTracker\<close> constructor builds it: \<open>status\<close>,
  \<open>notes\<close> (here \<open>council_notes\<close>) and \<open>contactEmail\<close> are copied from the entry
  and are \<open>undefined\<close> (\<open>None\<close>) where the entry lacks the field.
\<close>

record council =
  name :: string
  status :: "string option"
  council_notes :: "string option"
  contactEmail :: "string option"
  region :: string
  lastUpdated :: string

datatype js_error = TypeError | NoCouncilData

text \<open>A string value is truthy when it is present and not empty.\<close>

definition truthy :: "string option \<Rightarrow> bool" where
  "truthy v = (case v of None \<Rightarrow> False | Some s \<Rightarrow> s \<noteq> [])"

subsection \<open>Validation\<close>

text \<open>
  \<open>isValidEmail\<close> tests \<open>/^[^\s@]+@[^\s@]+\.[^\s@]+$/\<close>: no whitespace, exactly one
  \<open>@\<close> with a non-empty part before it, and after it a dot that is neither the first nor
  the last character.
\<close>

definition isValidEmail :: "string \<Rightarrow> bool" where
  "isValidEmail e =
     (let local_part = takeWhile (\<lambda>c. c \<noteq> CHR ''@'') e;
          rest = dropWhile (\<lambda>c. c \<noteq> CHR ''@'') e
      in local_part \<noteq> [] \<and> rest \<noteq> [] \<and> list_all (\<lambda>c. \<not> is_space c) e \<and>
         CHR ''@'' \<notin> set (tl rest) \<and> CHR ''.'' \<in> set (butlast (tl (tl rest))))"

datatype validation_error =
    NotAnObject
  | MissingField string
  | InvalidStatus string
  | InvalidEmail string

record validation =
  isValid :: bool
  errors :: "validation_error list"

definition validStatuses :: "string list" where
  "validStatuses = [''Yes'', ''No'', ''Unknown'']"

definition validateCouncilData :: "raw_council option \<Rightarrow> validation" where
  "validateCouncilData councilData =
     (case councilData of
        None \<Rightarrow> \<lparr>isValid = False, errors = [NotAnObject]\<rparr>
      | Some d \<Rightarrow>
          (let missing =
                 (if sgars d = None then [MissingField ''sgars''] else []) @
                 (if data_notes d = None then [MissingField ''notes''] else []) @
                 (if email d = None then [MissingField ''email''] else []);
               bad_status =
                 (case sgars d of
                    None \<Rightarrow> []
                  | Some s \<Rightarrow> if s \<noteq> [] \<and> s \<notin> set validStatuses then [InvalidStatus s] else []);
               bad_email =
                 (case email d of
                    None \<Rightarrow> []
                  | Some e \<Rightarrow> if e \<noteq> [] \<and> \<not> isValidEmail e then [InvalidEmail e] else []);
               errs = missing @ bad_status @ bad_email
           in \<lparr>isValid = (errs = []), errors = errs\<rparr>))"

subsection \<open>Construction\<close>

text \<open>
  The \<open>SGARTracker\<close> constructor maps every entry to a council record. Reading a field
  of a \<open>null\<close> entry throws a \<open>TypeError\<close>, which ends the construction. The set-up of
  the page that follows in the constructor is not part of the model.
\<close>

definition council_of :: "string \<Rightarrow> raw_council \<Rightarrow> council" where
  "council_of key d =
     \<lparr>name = titleCase key, status = sgars d, council_notes = data_notes d,
      contactEmail = email d, region = getCouncilRegion key, lastUpdated = ''2025-01-22''\<rparr>"

fun build_councils :: "council_data \<Rightarrow> js_error + council list" where
  "build_councils [] = Inr []"
| "build_councils ((key, None) # rest) = Inl TypeError"
| "build_councils ((key, Some d) # rest) =
     (case build_councils rest of
        Inl e \<Rightarrow> Inl e
      | Inr cs \<Rightarrow> Inr (council_of key d # cs))"

text \<open>
  \<open>initializeApp\<close>: an absent or empty catalog throws; every entry is validated and the
  failures are collected and written to the console as warnings; then the tracker is
  constructed from the same data. The result is the error caught by the surrounding
  \<open>try\<close>, or the warnings together with the councils of the application.
\<close>

record app =
  warnings :: "(string \<times> validation_error list) list"
  app_councils :: "council list"

definition validationErrors :: "council_data \<Rightarrow> (string \<times> validation_error list) list" where
  "validationErrors councilData =
     map (\<lambda>(key, d). (key, errors (validateCouncilData d)))
       (filter (\<lambda>(key, d). \<not> isValid (validateCouncilData d)) councilData)"

definition initializeApp :: "council_data option \<Rightarrow> js_error + app" where
  "initializeApp councilData =
     (case councilData of
        None \<Rightarrow> Inl NoCouncilData
      | Some entries \<Rightarrow>
          if entries = [] then Inl NoCouncilData
          else (case build_councils entries of
                  Inl e \<Rightarrow> Inl e
                | Inr cs \<Rightarrow> Inr \<lparr>warnings = validationErrors entries, app_councils = cs\<rparr>))"

section \<open>The filter of the list view\<close>

record filters =
  filter_status :: "string list"
  filter_region :: "string list"
  filter_search :: string

text \<open>\<open>list.includes(council.status)\<close>: an undefined status is in no list of strings.\<close>

definition status_included :: "string list \<Rightarrow> string option \<Rightarrow> bool" where
  "status_included sts st = (case st of None \<Rightarrow> False | Some s \<Rightarrow> s \<in> set sts)"

text \<open>
  The callback of \<open>SGARTracker.getFilteredCouncils\<close>. The search looks into the name,
  the region and the notes one after the other; \<open>council.notes.toLowerCase()\<close> throws a
  \<open>TypeError\<close> when the notes are undefined and the two earlier tests have failed.
\<close>

definition council_passes :: "filters \<Rightarrow> council \<Rightarrow> js_error + bool" where
  "council_passes f c =
     (if filter_status f \<noteq> [] \<and> \<not> status_included (filter_status f) (status c) then Inr False
      else if filter_region f \<noteq> [] \<and> region c \<notin> set (filter_region f) then Inr False
      else if filter_search f \<noteq> [] then
        (let searchTerm = toLowerCase (filter_search f) in
         if str_includes (toLowerCase (name c)) searchTerm then Inr True
         else if str_includes (toLowerCase (region c)) searchTerm then Inr True
         else (case council_notes c of
                 None \<Rightarrow> Inl TypeError
               | Some n \<Rightarrow> Inr (str_includes (toLowerCase n) searchTerm)))
      else Inr True)"

fun filter_councils :: "(council \<Rightarrow> js_error + bool) \<Rightarrow> council list \<Rightarrow> js_error + council list" where
  "filter_councils p [] = Inr []"
| "filter_councils p (c # cs) =
     (case p c of
        Inl e \<Rightarrow> Inl e
      | Inr keep \<Rightarrow>
          (case filter_councils p cs of
             Inl e \<Rightarrow> Inl e
           | Inr rest \<Rightarrow> Inr (if keep then c # rest else rest)))"

definition getFilteredCouncils :: "filters \<Rightarrow> council list \<Rightarrow> js_error + council list" where
  "getFilteredCouncils f cs = filter_councils (council_passes f) cs"

text \<open>
  \<open>filterCouncils(councils, criteria)\<close> of the utilities module. Every field of the
  criteria may be absent. The searchable text is
  \<open>[name, region, notes, contactEmail].join(' ')\<close>, where \<open>join\<close> writes an undefined
  element as the empty string.
\<close>

record criteria =
  crit_status :: "string list option"
  crit_region :: "string list option"
  crit_search :: "string option"

fun join_space :: "string list \<Rightarrow> string" where
  "join_space [] = []"
| "join_space [x] = x"
| "join_space (x # y # ys) = x @ '' '' @ join_space (y # ys)"

definition or_empty :: "string option \<Rightarrow> string" where
  "or_empty v = (case v of None \<Rightarrow> [] | Some s \<Rightarrow> s)"

definition searchableText :: "council \<Rightarrow> string" where
  "searchableText c =
     toLowerCase (join_space [name c, region c, or_empty (council_notes c), or_empty (contactEmail c)])"

definition criteria_pass :: "criteria \<Rightarrow> council \<Rightarrow> bool" where
  "criteria_pass cr c =
     (if (case crit_status cr of None \<Rightarrow> False
          | Some sts \<Rightarrow> sts \<noteq> [] \<and> \<not> status_included sts (status c)) then False
      else if (case crit_region cr of None \<Rightarrow> False
          | Some rs \<Rightarrow> rs \<noteq> [] \<and> region c \<notin> set rs) then False
      else if truthy (crit_search cr) then
        str_includes (searchableText c) (toLowerCase (or_empty (crit_search cr)))
      else True)"

definition filterCouncils :: "council list \<Rightarrow> criteria \<Rightarrow> council list" where
  "filterCouncils cs cr = filter (criteria_pass cr) cs"

section \<open>The map controller\<close>

text \<open>
  The controller holds the councils and the name mapping, \<open>null\<close> until it is loaded. The
  mapping document is a JSON object from the tool's council names to the names of the
  boundary data set, listed in the order of \<open>Object.entries\<close>.
\<close>

record map_controller =
  councils :: "council list"
  nameMapping :: "(string \<times> string) list option"

definition new_MapController :: "council list \<Rightarrow> map_controller" where
  "new_MapController cs = \<lparr>councils = cs, nameMapping = None\<rparr>"

text \<open>
  \<open>loadNameMapping\<close> fetches the mapping document. A rejected fetch, a response that is
  not ok and a body that is not JSON all end in the \<open>catch\<close> block, which logs the error
  and a warning and leaves \<open>nameMapping\<close> as it was.
\<close>

datatype fetch_outcome =
    FetchRejected
  | ResponseNotOk nat
  | JsonRejected
  | JsonParsed "(string \<times> string) list"

datatype log_entry = MappingLoaded | FallbackWarning

definition loadNameMapping :: "map_controller \<Rightarrow> fetch_outcome \<Rightarrow> map_controller \<times> log_entry list" where
  "loadNameMapping mc outcome =
     (case outcome of
        JsonParsed m \<Rightarrow> (mc\<lparr>nameMapping := Some m\<rparr>, [MappingLoaded])
      | _ \<Rightarrow> (mc, [FallbackWarning]))"

definition init :: "council list \<Rightarrow> fetch_outcome \<Rightarrow> map_controller \<times> log_entry list" where
  "init cs outcome = loadNameMapping (new_MapController cs) outcome"

subsection \<open>The reverse index\<close>

text \<open>
  \<open>findCouncilByName\<close> builds \<open>reverseMapping\<close>, an object literal, by assigning
  \<open>reverseMapping[gisFullName] = ourName\<close> for the entries in order, so a later entry
  with the same value replaces an earlier one. The object inherits from
  \<open>Object.prototype\<close>: reading one of the inherited property names that was not assigned
  gives a function or an object, not a string, and assigning a string to \<open>__proto__\<close>
  has no effect.
\<close>

definition object_prototype_keys :: "string list" where
  "object_prototype_keys =
    [''constructor'', ''hasOwnProperty'', ''isPrototypeOf'', ''propertyIsEnumerable'',
     ''toLocaleString'', ''toString'', ''valueOf'', ''__proto__'', ''__defineGetter__'',
     ''__defineSetter__'', ''__lookupGetter__'', ''__lookupSetter__'']"

datatype lookup = Missing | Own string | Inherited

definition reverse_lookup :: "(string \<times> string) list \<Rightarrow> string \<Rightarrow> lookup" where
  "reverse_lookup m gisName =
     (if gisName = ''__proto__'' then Inherited
      else (case filter (\<lambda>(ourName, gisFullName). gisFullName = gisName) m of
              [] \<Rightarrow> if gisName \<in> set object_prototype_keys then Inherited else Missing
            | e # es \<Rightarrow> Own (fst (last (e # es)))))"

subsection \<open>Resolution\<close>

definition gis_qualifiers :: "string list" where
  "gis_qualifiers =
    [''CITY'', ''SHIRE'', ''REGIONAL'', ''MUNICIPAL'', ''COUNCIL'', ''THE COUNCIL OF THE'',
     ''MUNICIPALITY OF'', ''CITY OF'', ''SHIRE OF'']"

definition council_qualifiers :: "string list" where
  "council_qualifiers = [''CITY'', ''SHIRE'', ''REGIONAL'', ''MUNICIPAL'', ''COUNCIL'']"

definition normalizedGisName :: "string \<Rightarrow> string" where
  "normalizedGisName gisName = trim (toUpperCase gisName)"

definition cleanGisName :: "string \<Rightarrow> string" where
  "cleanGisName gisName =
     trim (collapse_ws (replace_alts gis_qualifiers False (normalizedGisName gisName)))"

definition cleanCouncilName :: "string \<Rightarrow> string" where
  "cleanCouncilName n =
     trim (collapse_ws (replace_alts council_qualifiers False (toUpperCase n)))"

text \<open>The callback of the first \<open>find\<close>: the council that the mapped name denotes.\<close>

definition mapped_match :: "string \<Rightarrow> council \<Rightarrow> bool" where
  "mapped_match ourName c =
     (toUpperCase (name c) = toUpperCase ourName \<or>
      collapse_ws (toUpperCase (name c)) = collapse_ws (toUpperCase ourName))"

text \<open>The callback of the second \<open>find\<close>: the fuzzy comparison.\<close>

definition fuzzy_match :: "string \<Rightarrow> council \<Rightarrow> bool" where
  "fuzzy_match gisName c =
     (if toUpperCase (name c) = normalizedGisName gisName then True
      else (cleanCouncilName (name c) = cleanGisName gisName \<or>
            str_includes (cleanCouncilName (name c)) (cleanGisName gisName) \<or>
            str_includes (cleanGisName gisName) (cleanCouncilName (name c))))"

definition fuzzy_find :: "council list \<Rightarrow> string \<Rightarrow> council option" where
  "fuzzy_find cs gisName = find (fuzzy_match gisName) cs"

text \<open>
  \<open>findCouncilByName(gisName)\<close>. The argument is a string, \<open>null\<close> or \<open>undefined\<close>
  (\<open>None\<close>); the result \<open>null\<close> or \<open>undefined\<close> is \<open>None\<close>. With an inherited, non-string
  value for \<open>ourName\<close> the first call of the callback throws at \<open>ourName.toUpperCase()\<close>;
  \<open>find\<close> on an empty array never calls it.
\<close>

definition findCouncilByName :: "map_controller \<Rightarrow> string option \<Rightarrow> js_error + council option" where
  "findCouncilByName mc gisName =
     (case gisName of
        None \<Rightarrow> Inr None
      | Some g \<Rightarrow>
          if g = [] then Inr None
          else (case nameMapping mc of
                  None \<Rightarrow> Inr (fuzzy_find (councils mc) g)
                | Some m \<Rightarrow>
                    (case reverse_lookup m g of
                       Missing \<Rightarrow> Inr (fuzzy_find (councils mc) g)
                     | Own ourName \<Rightarrow>
                         if ourName = [] then Inr (fuzzy_find (councils mc) g)
                         else Inr (find (mapped_match ourName) (councils mc))
                     | Inherited \<Rightarrow>
                         if councils mc = [] then Inr None else Inl TypeError)))"

section \<open>Styles\<close>

text \<open>
  A CSS colour \<open>rgba(r, g, b, a)\<close> is kept as its four components, the alpha in
  hundredths. An OpenLayers style is its fill and its stroke, each possibly absent.
\<close>

record rgba =
  red :: nat
  green :: nat
  blue :: nat
  alpha :: nat

record stroke =
  color :: string
  width :: nat

record style =
  style_fill :: "rgba option"
  style_stroke :: "stroke option"

record status_colors =
  fill :: rgba
  border :: "string option"
  hover :: rgba

definition getStatusColors :: "string option \<Rightarrow> bool \<Rightarrow> status_colors" where
  "getStatusColors st isHover =
     (if st = Some ''Yes'' then
        \<lparr>fill = \<lparr>red = 220, green = 53, blue = 69, alpha = (if isHover then 80 else 70)\<rparr>,
         border = None,
         hover = \<lparr>red = 220, green = 53, blue = 69, alpha = 85\<rparr>\<rparr>
      else if st = Some ''No'' then
        \<lparr>fill = \<lparr>red = 40, green = 167, blue = 69, alpha = (if isHover then 80 else 70)\<rparr>,
         border = None,
         hover = \<lparr>red = 40, green = 167, blue = 69, alpha = 85\<rparr>\<rparr>
      else
        \<lparr>fill = \<lparr>red = 108, green = 117, blue = 125, alpha = (if isHover then 70 else 60)\<rparr>,
         border = None,
         hover = \<lparr>red = 108, green = 117, blue = 125, alpha = 75\<rparr>\<rparr>)"

definition getDefaultStyle :: style where
  "getDefaultStyle =
     \<lparr>style_fill = Some \<lparr>red = 200, green = 200, blue = 200, alpha = 10\<rparr>,
      style_stroke = Some \<lparr>color = ''#cccccc'', width = 1\<rparr>\<rparr>"

text \<open>\<open>new ol.style.Style({})\<close>: nothing is drawn.\<close>

definition empty_style :: style where
  "empty_style = \<lparr>style_fill = None, style_stroke = None\<rparr>"

text \<open>
  A feature is its property bag with string values. The name is the first truthy value
  among the property names probed, or the value of the last one.
\<close>

type_synonym feature = "string \<Rightarrow> string option"

definition lga_name_keys :: "string list" where
  "lga_name_keys =
    [''lga_name_2021'', ''lga_name'', ''LGA_NAME'', ''name'', ''NAME'', ''lga_nam11'',
     ''lga_name16'', ''LGA_NAME22'', ''lgaName'', ''LGA_NAM'']"

fun first_truthy :: "string option list \<Rightarrow> string option" where
  "first_truthy [] = None"
| "first_truthy [v] = v"
| "first_truthy (v # w # ws) = (if truthy v then v else first_truthy (w # ws))"

definition feature_name :: "feature \<Rightarrow> string option" where
  "feature_name ft = first_truthy (map ft lga_name_keys)"

text \<open>
  \<open>getLGAStyle(feature)\<close>, without its counters and console output.
\<close>

definition unmapped_style :: style where
  "unmapped_style =
     \<lparr>style_fill = Some \<lparr>red = 248, green = 249, blue = 250, alpha = 40\<rparr>, style_stroke = None\<rparr>"

definition getLGAStyle :: "map_controller \<Rightarrow> feature \<Rightarrow> js_error + style" where
  "getLGAStyle mc ft =
     (case findCouncilByName mc (feature_name ft) of
        Inl e \<Rightarrow> Inl e
      | Inr None \<Rightarrow> Inr unmapped_style
      | Inr (Some c) \<Rightarrow>
          Inr \<lparr>style_fill = Some (fill (getStatusColors (status c) False)), style_stroke = None\<rparr>)"

text \<open>
  The style function that \<open>applyFilter(filter)\<close> installs on the boundary layer. The
  filter is \<open>null\<close> (\<open>None\<close>) or the filters of the tracker.
\<close>

definition applyFilter :: "map_controller \<Rightarrow> filters option \<Rightarrow> feature \<Rightarrow> js_error + style" where
  "applyFilter mc flt ft =
     (case findCouncilByName mc (feature_name ft) of
        Inl e \<Rightarrow> Inl e
      | Inr None \<Rightarrow> Inr getDefaultStyle
      | Inr (Some c) \<Rightarrow>
          (case flt of
             None \<Rightarrow> getLGAStyle mc ft
           | Some f \<Rightarrow>
               if filter_status f \<noteq> [] \<and> \<not> status_included (filter_status f) (status c)
               then Inr empty_style
               else getLGAStyle mc ft))"

section \<open>Notions used in the statements\<close>

text \<open>
  The search constraint as the specification words it: a case-insensitive substring test
  against the name, the region and the notes joined with single spaces.
\<close>

definition spec_search_matches :: "string \<Rightarrow> council \<Rightarrow> bool" where
  "spec_search_matches search c =
     str_includes
       (toLowerCase (join_space [name c, region c, or_empty (council_notes c)]))
       (toLowerCase search)"

text \<open>The outcomes of the fetch after which no mapping is installed.\<close>

definition load_failed :: "fetch_outcome \<Rightarrow> bool" where
  "load_failed outcome = (case outcome of JsonParsed m \<Rightarrow> False | _ \<Rightarrow> True)"

text \<open>
  The first step of the resolution passes a name on to the fuzzy comparison when no
  mapping is loaded, when the reverse index has no property of that name, or when the
  property is the empty string.
\<close>

definition mapping_miss :: "map_controller \<Rightarrow> string \<Rightarrow> bool" where
  "mapping_miss mc gisName =
     (case nameMapping mc of
        None \<Rightarrow> True
      | Some m \<Rightarrow>
          (case reverse_lookup m gisName of
             Missing \<Rightarrow> True
           | Own ourName \<Rightarrow> ourName = []
           | Inherited \<Rightarrow> False))"

text \<open>
  Colour families: a channel dominates when it exceeds both others by more than a quarter
  of the range; a colour is neutral when its channels lie within an eighth of the range.
\<close>

definition red_family :: "rgba \<Rightarrow> bool" where
  "red_family c = (green c + 64 < red c \<and> blue c + 64 < red c)"

definition green_family :: "rgba \<Rightarrow> bool" where
  "green_family c = (red c + 64 < green c \<and> blue c + 64 < green c)"

definition gray_family :: "rgba \<Rightarrow> bool" where
  "gray_family c =
     (max (red c) (max (green c) (blue c)) \<le> min (red c) (min (green c) (blue c)) + 32)"

definition same_hue :: "rgba \<Rightarrow> rgba \<Rightarrow> bool" where
  "same_hue a b = (red a = red b \<and> green a = green b \<and> blue a = blue b)"

text \<open>A status is out of range when it is a non-empty string other than the three values.\<close>

definition out_of_range :: "string \<Rightarrow> bool" where
  "out_of_range s = (s \<noteq> [] \<and> s \<notin> set validStatuses)"

text \<open>Sample data.\<close>

definition mk_council :: "string \<Rightarrow> string \<Rightarrow> string \<Rightarrow> council" where
  "mk_council key st nts =
     \<lparr>name = titleCase key, status = Some st, council_notes = Some nts,
      contactEmail = Some ''council@example.org'', region = getCouncilRegion key,
      lastUpdated = ''2025-01-22''\<rparr>"

definition lithgow :: council where
  "lithgow = mk_council ''LITHGOW CITY'' ''Yes'' []"

definition sydney :: council where
  "sydney = mk_council ''SYDNEY'' ''Yes'' []"

definition lithgow_shire :: council where
  "lithgow_shire = mk_council ''LITHGOW SHIRE'' ''No'' []"

definition no_filter :: filters where
  "no_filter = \<lparr>filter_status = [], filter_region = [], filter_search = []\<rparr>"

definition sydney_feature :: feature where
  "sydney_feature = (\<lambda>k. if k = ''lga_name_2021'' then Some ''Sydney'' else None)"

definition unknown_feature :: feature where
  "unknown_feature = (\<lambda>k. if k = ''lga_name_2021'' then Some ''Lord Howe Island'' else None)"

definition hunter_only :: filters where
  "hunter_only = \<lparr>filter_status = [], filter_region = [''Hunter''], filter_search = []\<rparr>"

definition free_only :: filters where
  "free_only = \<lparr>filter_status = [''No''], filter_region = [], filter_search = []\<rparr>"

definition maybe_catalog :: council_data where
  "maybe_catalog =
     [(''SYDNEY'', Some \<lparr>sgars = Some ''Maybe'', data_notes = Some ''under review'',
                           email = Some ''council@example.org''\<rparr>)]"

definition drifted_mapping :: "(string \<times> string) list" where
  "drifted_mapping = [(''LITHGOW'', ''Lithgow City Council'')]"

definition sydney_mapping :: "(string \<times> string) list" where
  "sydney_mapping = [(''SYDNEY'', ''Council of the City of Sydney'')]"

text \<open>The resolution by the fuzzy comparison alone, after the test for a falsy argument.\<close>

definition fuzzy_only :: "council list \<Rightarrow> string option \<Rightarrow> council option" where
  "fuzzy_only cs gisName =
     (case gisName of None \<Rightarrow> None | Some g \<Rightarrow> if g = [] then None else fuzzy_find cs g)"

definition sydney_metro :: filters where
  "sydney_metro = \<lparr>filter_status = [], filter_region = [], filter_search = ''sydney metro''\<rparr>"

definition metro_search :: filters where
  "metro_search = \<lparr>filter_status = [], filter_region = [], filter_search = ''Metro''\<rparr>"

definition example_org :: criteria where
  "example_org = \<lparr>crit_status = None, crit_region = None, crit_search = Some ''example.org''\<rparr>"

definition city_council_mapping :: "(string \<times> string) list" where
  "city_council_mapping = [(''LITHGOW CITY'', ''City Council'')]"

definition north_sydney :: council where
  "north_sydney = mk_council ''NORTH SYDNEY'' ''Unknown'' []"

definition duplicate_mapping :: "(string \<times> string) list" where
  "duplicate_mapping =
     [(''LITHGOW CITY'', ''Council of the City of Sydney''),
      (''SYDNEY'', ''Council of the City of Sydney'')]"

definition spaced_mapping :: "(string \<times> string) list" where
  "spaced_mapping = [(''NORTH  SYDNEY'', ''North Sydney Council'')]"

text \<open>
  Notions for the normal forms. An alternation consists of single words when every
  alternative is a non-empty run of word characters. \<open>no_match alts prev s\<close>: the
  pattern \<open>\b(alts)\b\<close> matches at no position of \<open>s\<close>, which follows a word character
  when \<open>prev\<close> holds. \<open>has_word w s\<close>: \<open>\bw\b\<close> matches somewhere in \<open>s\<close>;
  \<open>has_phrase\<close> is the same test for a phrase of several words. A string is
  single-spaced when its only whitespace is single blanks. An alternation is word-bounded
  when every alternative begins and ends with a word character.
\<close>

definition single_words :: "string list \<Rightarrow> bool" where
  "single_words alts = list_all (\<lambda>p. p \<noteq> [] \<and> list_all is_word_char p) alts"

fun no_match :: "string list \<Rightarrow> bool \<Rightarrow> string \<Rightarrow> bool" where
  "no_match alts prev [] = True"
| "no_match alts prev (c # cs) =
     (match_at alts prev (c # cs) = None \<and> no_match alts (is_word_char c) cs)"

fun single_spaced :: "string \<Rightarrow> bool" where
  "single_spaced [] = True"
| "single_spaced (c # cs) =
     ((if is_space c then c = CHR '' '' \<and> (case cs of [] \<Rightarrow> True | d # _ \<Rightarrow> \<not> is_space d) else True)
      \<and> single_spaced cs)"

definition has_word :: "string \<Rightarrow> string \<Rightarrow> bool" where
  "has_word w s = (\<not> no_match [w] False s)"

definition word_bounded :: "string list \<Rightarrow> bool" where
  "word_bounded alts =
     list_all (\<lambda>p. p \<noteq> [] \<and> is_word_char (hd p) \<and> is_word_char (last p)) alts"

definition has_phrase :: "string \<Rightarrow> string \<Rightarrow> bool" where
  "has_phrase p s = (\<not> no_match [p] False s)"

text \<open>
  A text of qualifier words: every character outside a word is whitespace and every word
  is one of the single words of the vocabulary.
\<close>

fun qualifier_text :: "bool \<Rightarrow> string \<Rightarrow> bool" where
  "qualifier_text prev [] = True"
| "qualifier_text prev (c # cs) =
     ((if is_word_char c then prev \<or> takeWhile is_word_char (c # cs) \<in> set council_qualifiers
       else is_space c) \<and>
      qualifier_text (is_word_char c) cs)"

definition only_qualifier_words :: "string \<Rightarrow> bool" where
  "only_qualifier_words g = qualifier_text False (toUpperCase g)"

section \<open>Resolution of a name\<close>

text \<open>
  C6. For the \<open>null\<close> argument and for the empty string \<open>findCouncilByName\<close> returns
  \<open>null\<close> at its first statement: no error is raised, whatever the councils and the
  mapping are.
\<close>

theorem resolve_null_or_empty:
  "findCouncilByName mc None = Inr None \<and> findCouncilByName mc (Some []) = Inr None"
  by (simp add: findCouncilByName_def)

theorem resolve_null_or_empty_witness:
  "findCouncilByName \<lparr>councils = [sydney], nameMapping = Some [(''SYDNEY'', ''Sydney'')]\<rparr> None = Inr None \<and>
   findCouncilByName \<lparr>councils = [sydney], nameMapping = Some [(''SYDNEY'', ''Sydney'')]\<rparr> (Some []) = Inr None"
  by (rule resolve_null_or_empty)

text \<open>
  C5. When the fetch of the mapping document fails in any way, \<open>init\<close> still returns a
  controller: one warning is logged, the councils are kept and no mapping is installed.
  With no mapping installed, be it after a failed load or because none was ever loaded,
  \<open>findCouncilByName\<close> raises no error and its result is that of the fuzzy comparison
  alone.
\<close>

theorem degraded_mode_resolution:
  assumes "load_failed outcome"
  shows "init cs outcome = (new_MapController cs, [FallbackWarning]) \<and>
         nameMapping (fst (init cs outcome)) = None \<and>
         councils (fst (init cs outcome)) = cs \<and>
         findCouncilByName (fst (init cs outcome)) gisName = Inr (fuzzy_only cs gisName) \<and>
         findCouncilByName (new_MapController cs) gisName = Inr (fuzzy_only cs gisName)"
proof -
  from assms have loaded: "init cs outcome = (new_MapController cs, [FallbackWarning])"
    by (cases outcome) (simp_all add: init_def loadNameMapping_def load_failed_def)
  have fuzzy: "findCouncilByName (new_MapController cs) gisName = Inr (fuzzy_only cs gisName)"
    by (simp add: findCouncilByName_def new_MapController_def fuzzy_only_def
        split: option.split)
  from loaded fuzzy show ?thesis
    by (simp add: new_MapController_def)
qed

theorem degraded_mode_resolution_witness:
  "load_failed (ResponseNotOk 404) \<and>
   init [lithgow] (ResponseNotOk 404) = (new_MapController [lithgow], [FallbackWarning]) \<and>
   findCouncilByName (fst (init [lithgow] (ResponseNotOk 404))) (Some ''Lithgow City Council'')
     = Inr (fuzzy_only [lithgow] (Some ''Lithgow City Council''))"
proof -
  have failed: "load_failed (ResponseNotOk 404)"
    by (simp add: load_failed_def)
  from degraded_mode_resolution [OF failed, of "[lithgow]" "Some ''Lithgow City Council''"] failed
  show ?thesis by simp
qed

section \<open>Status colours\<close>

text \<open>
  C9. For every status, present or missing, the hover variant of the fill has the red,
  green and blue components of the plain variant and an alpha that is higher by 0.10; the
  separate \<open>hover\<close> colour has the same components and an alpha higher by 0.15. The plain
  fill is red-dominated for \<open>Yes\<close>, green-dominated for \<open>No\<close> and a neutral gray for
  \<open>Unknown\<close>, for a missing status and for every other value.
\<close>

theorem status_colours:
  "same_hue (fill (getStatusColors st True)) (fill (getStatusColors st False)) \<and>
   alpha (fill (getStatusColors st True)) = alpha (fill (getStatusColors st False)) + 10 \<and>
   same_hue (hover (getStatusColors st h)) (fill (getStatusColors st False)) \<and>
   alpha (hover (getStatusColors st h)) = alpha (fill (getStatusColors st False)) + 15 \<and>
   red_family (fill (getStatusColors (Some ''Yes'') False)) \<and>
   green_family (fill (getStatusColors (Some ''No'') False)) \<and>
   gray_family (fill (getStatusColors (Some ''Unknown'') False)) \<and>
   gray_family (fill (getStatusColors None False)) \<and>
   (st \<noteq> Some ''Yes'' \<and> st \<noteq> Some ''No'' \<longrightarrow>
      getStatusColors st h = getStatusColors (Some ''Unknown'') h)"
  by (simp add: getStatusColors_def same_hue_def red_family_def green_family_def
      gray_family_def)

theorem status_colours_witness:
  "same_hue (fill (getStatusColors (Some ''Yes'') True)) (fill (getStatusColors (Some ''Yes'') False)) \<and>
   alpha (fill (getStatusColors (Some ''Yes'') True)) = 80 \<and>
   alpha (fill (getStatusColors (Some ''Yes'') False)) = 70 \<and>
   getStatusColors (Some ''Maybe'') False = getStatusColors (Some ''Unknown'') False"
  using status_colours [of "Some ''Yes''" False] status_colours [of "Some ''Maybe''" False]
  by (simp add: getStatusColors_def)

section \<open>Loading the catalog\<close>

lemma build_councils_objects:
  "list_all (\<lambda>(key, d). d \<noteq> None) entries \<Longrightarrow> \<exists>cs. build_councils entries = Inr cs"
proof (induction entries rule: build_councils.induct)
  case 1
  show ?case by simp
next
  case (2 key rest)
  then show ?case by simp
next
  case (3 key d rest)
  then obtain cs where "build_councils rest = Inr cs" by auto
  then show ?case by simp
qed

lemma build_councils_member:
  "build_councils entries = Inr cs \<Longrightarrow> (key, Some d) \<in> set entries \<Longrightarrow>
   council_of key d \<in> set cs"
proof (induction entries arbitrary: cs rule: build_councils.induct)
  case 1
  then show ?case by simp
next
  case (2 k rest)
  then show ?case by simp
next
  case (3 k e rest)
  from "3.prems"(1) obtain cs' where
    rest: "build_councils rest = Inr cs'" and cs: "cs = council_of k e # cs'"
    by (auto split: sum.splits)
  from "3.prems"(2) consider "k = key \<and> e = d" | "(key, Some d) \<in> set rest"
    by auto
  then show ?case
  proof cases
    case 1
    with cs show ?thesis by simp
  next
    case 2
    with "3.IH" rest have "council_of key d \<in> set cs'" by blast
    with cs show ?thesis by simp
  qed
qed

lemma build_councils_length:
  "build_councils entries = Inr cs \<Longrightarrow> length cs = length entries"
  by (induction entries arbitrary: cs rule: build_councils.induct)
    (auto split: sum.splits)

lemma invalid_status_error:
  assumes "sgars d = Some s" and "out_of_range s"
  shows "InvalidStatus s \<in> set (errors (validateCouncilData (Some d)))"
    and "\<not> isValid (validateCouncilData (Some d))"
  using assms by (simp_all add: validateCouncilData_def out_of_range_def Let_def)

lemma validationErrors_member:
  "(key, d) \<in> set entries \<Longrightarrow> \<not> isValid (validateCouncilData d) \<Longrightarrow>
   (key, errors (validateCouncilData d)) \<in> set (validationErrors entries)"
  by (force simp: validationErrors_def)

text \<open>
  C3, as stated: a catalog with a status outside the three values makes the loading fail.
  It does not: the catalog whose only entry has the status \<open>Maybe\<close> is loaded, the
  finding is kept as a warning and the council is built with that status.
\<close>

theorem invalid_status_is_loaded:
  "out_of_range ''Maybe'' \<and>
   initializeApp (Some maybe_catalog) =
     Inr \<lparr>warnings = [(''SYDNEY'', [InvalidStatus ''Maybe''])],
          app_councils = [mk_council ''SYDNEY'' ''Maybe'' ''under review'']\<rparr>"
  by code_simp

text \<open>
  C3, amended: when the raw catalog has an entry whose status is a non-empty string
  outside \<open>Yes\<close>, \<open>No\<close>, \<open>Unknown\<close> (and no entry is \<open>null\<close>), the validation of that
  entry fails with an invalid-status error, which \<open>initializeApp\<close> collects among its
  console warnings; the construction is not aborted, and the council built from the entry
  carries the status as it was read, neither rejected nor replaced by one of the three
  values.
\<close>

theorem invalid_status_warned_not_rejected:
  assumes "(key, Some d) \<in> set entries" and "sgars d = Some s" and "out_of_range s"
    and "list_all (\<lambda>(k, e). e \<noteq> None) entries"
  shows "\<exists>a. initializeApp (Some entries) = Inr a \<and>
           (key, errors (validateCouncilData (Some d))) \<in> set (warnings a) \<and>
           InvalidStatus s \<in> set (errors (validateCouncilData (Some d))) \<and>
           council_of key d \<in> set (app_councils a) \<and>
           status (council_of key d) = Some s \<and>
           length (app_councils a) = length entries"
proof -
  from assms(4) obtain cs where built: "build_councils entries = Inr cs"
    using build_councils_objects by blast
  from assms(1) have nonempty: "entries \<noteq> []" by auto
  let ?a = "\<lparr>warnings = validationErrors entries, app_councils = cs\<rparr>"
  from built nonempty have "initializeApp (Some entries) = Inr ?a"
    by (simp add: initializeApp_def)
  moreover have "(key, errors (validateCouncilData (Some d))) \<in> set (warnings ?a)"
    using validationErrors_member [OF assms(1)] invalid_status_error(2) [OF assms(2,3)]
    by simp
  moreover have "council_of key d \<in> set (app_councils ?a)"
    using build_councils_member [OF built assms(1)] by simp
  moreover have "status (council_of key d) = Some s"
    using assms(2) by (simp add: council_of_def)
  moreover have "length (app_councils ?a) = length entries"
    using build_councils_length [OF built] by simp
  ultimately show ?thesis
    using invalid_status_error(1) [OF assms(2,3)] by blast
qed

theorem invalid_status_warned_not_rejected_witness:
  "\<exists>a. initializeApp (Some maybe_catalog) = Inr a \<and>
        (''SYDNEY'', [InvalidStatus ''Maybe'']) \<in> set (warnings a) \<and>
        status (hd (app_councils a)) = Some ''Maybe''"
proof -
  let ?d = "\<lparr>sgars = Some ''Maybe'', data_notes = Some ''under review'',
             email = Some ''council@example.org''\<rparr>"
  have entry: "(''SYDNEY'', Some ?d) \<in> set maybe_catalog"
    by (simp add: maybe_catalog_def)
  have st: "sgars ?d = Some ''Maybe''" by simp
  have range: "out_of_range ''Maybe''" by code_simp
  have objects: "list_all (\<lambda>(k, e). e \<noteq> None) maybe_catalog"
    by (simp add: maybe_catalog_def)
  have errs: "errors (validateCouncilData (Some ?d)) = [InvalidStatus ''Maybe'']"
    by code_simp
  from invalid_status_warned_not_rejected [OF entry st range objects] obtain a where
    a: "initializeApp (Some maybe_catalog) = Inr a"
      "(''SYDNEY'', errors (validateCouncilData (Some ?d))) \<in> set (warnings a)"
      "council_of ''SYDNEY'' ?d \<in> set (app_councils a)"
      "length (app_councils a) = length maybe_catalog"
    by blast
  from a(4) obtain c where single: "app_councils a = [c]"
    by (cases "app_councils a") (auto simp: maybe_catalog_def)
  with a(3) have "c = council_of ''SYDNEY'' ?d" by simp
  with single have "status (hd (app_councils a)) = Some ''Maybe''"
    by (simp add: council_of_def)
  with a(1,2) errs show ?thesis by auto
qed

section \<open>Styles under a filter\<close>

lemma getLGAStyle_resolved:
  "findCouncilByName mc (feature_name ft) = Inr (Some c) \<Longrightarrow>
   getLGAStyle mc ft =
     Inr \<lparr>style_fill = Some (fill (getStatusColors (status c) False)), style_stroke = None\<rparr>"
  by (simp add: getLGAStyle_def)

text \<open>
  C4, as stated: a feature whose council the criteria exclude is drawn with the empty
  style. The council of Sydney lies in the region Metro South, so the list view drops it
  under the region criterion \<open>Hunter\<close>; on the map the same criteria leave its feature
  filled with the colour of its status.
\<close>

theorem region_exclusion_still_drawn:
  "findCouncilByName \<lparr>councils = [sydney], nameMapping = None\<rparr> (feature_name sydney_feature)
     = Inr (Some sydney) \<and>
   council_passes hunter_only sydney = Inr False \<and>
   applyFilter \<lparr>councils = [sydney], nameMapping = None\<rparr> (Some hunter_only) sydney_feature
     = Inr \<lparr>style_fill = Some \<lparr>red = 220, green = 53, blue = 69, alpha = 70\<rparr>,
            style_stroke = None\<rparr> \<and>
   applyFilter \<lparr>councils = [sydney], nameMapping = None\<rparr> (Some hunter_only) sydney_feature
     \<noteq> Inr empty_style"
  by code_simp

text \<open>
  C4, amended: under the style function that \<open>applyFilter\<close> installs, a feature whose
  name resolves to no council gets the default style (light gray fill, gray stroke); a
  feature whose council has a status that a non-empty status criterion does not list gets
  the empty style; every other resolved feature gets the fill of its status, whatever the
  region and search criteria are. The default style and the empty style differ, and so do
  the empty style and every fill of a status.
\<close>

theorem map_filter_styles:
  "(findCouncilByName mc (feature_name ft) = Inr None \<longrightarrow>
      applyFilter mc flt ft = Inr getDefaultStyle) \<and>
   (findCouncilByName mc (feature_name ft) = Inr (Some c) \<and> filter_status f \<noteq> [] \<and>
    \<not> status_included (filter_status f) (status c) \<longrightarrow>
      applyFilter mc (Some f) ft = Inr empty_style) \<and>
   (findCouncilByName mc (feature_name ft) = Inr (Some c) \<and>
    (filter_status f = [] \<or> status_included (filter_status f) (status c)) \<longrightarrow>
      applyFilter mc (Some f) ft =
        Inr \<lparr>style_fill = Some (fill (getStatusColors (status c) False)),
             style_stroke = None\<rparr>) \<and>
   getDefaultStyle \<noteq> empty_style \<and>
   unmapped_style \<noteq> empty_style \<and>
   \<lparr>style_fill = Some (fill (getStatusColors st False)), style_stroke = None\<rparr> \<noteq> empty_style"
proof -
  have unresolved: "findCouncilByName mc (feature_name ft) = Inr None \<longrightarrow>
      applyFilter mc flt ft = Inr getDefaultStyle"
    by (simp add: applyFilter_def)
  have hidden: "findCouncilByName mc (feature_name ft) = Inr (Some c) \<and>
      filter_status f \<noteq> [] \<and> \<not> status_included (filter_status f) (status c) \<longrightarrow>
      applyFilter mc (Some f) ft = Inr empty_style"
    by (simp add: applyFilter_def)
  have drawn: "findCouncilByName mc (feature_name ft) = Inr (Some c) \<and>
      (filter_status f = [] \<or> status_included (filter_status f) (status c)) \<longrightarrow>
      applyFilter mc (Some f) ft =
        Inr \<lparr>style_fill = Some (fill (getStatusColors (status c) False)),
             style_stroke = None\<rparr>"
    by (auto simp: applyFilter_def getLGAStyle_resolved)
  have distinct: "getDefaultStyle \<noteq> empty_style" "unmapped_style \<noteq> empty_style"
    "\<lparr>style_fill = Some (fill (getStatusColors st False)), style_stroke = None\<rparr> \<noteq> empty_style"
    by (simp_all add: getDefaultStyle_def empty_style_def unmapped_style_def)
  from unresolved hidden drawn distinct show ?thesis by blast
qed

theorem map_filter_styles_witness:
  "applyFilter \<lparr>councils = [sydney], nameMapping = None\<rparr> (Some free_only) unknown_feature
     = Inr getDefaultStyle \<and>
   applyFilter \<lparr>councils = [sydney], nameMapping = None\<rparr> (Some free_only) sydney_feature
     = Inr empty_style \<and>
   applyFilter \<lparr>councils = [sydney], nameMapping = None\<rparr> (Some hunter_only) sydney_feature
     = Inr \<lparr>style_fill = Some (fill (getStatusColors (status sydney) False)),
            style_stroke = None\<rparr> \<and>
   getDefaultStyle \<noteq> empty_style"
proof -
  let ?mc = "\<lparr>councils = [sydney], nameMapping = None\<rparr>"
  have unknown: "findCouncilByName ?mc (feature_name unknown_feature) = Inr None"
    by code_simp
  have known: "findCouncilByName ?mc (feature_name sydney_feature) = Inr (Some sydney)"
    by code_simp
  have excluded: "filter_status free_only \<noteq> [] \<and>
      \<not> status_included (filter_status free_only) (status sydney)"
    by code_simp
  have unconstrained: "filter_status hunter_only = []"
    by (simp add: hunter_only_def)
  from map_filter_styles [of ?mc unknown_feature "Some free_only" sydney free_only] unknown
  have one: "applyFilter ?mc (Some free_only) unknown_feature = Inr getDefaultStyle"
    by blast
  from map_filter_styles [of ?mc sydney_feature "Some free_only" sydney free_only] known excluded
  have two: "applyFilter ?mc (Some free_only) sydney_feature = Inr empty_style"
    by blast
  from map_filter_styles [of ?mc sydney_feature "Some hunter_only" sydney hunter_only]
    known unconstrained
  have three: "applyFilter ?mc (Some hunter_only) sydney_feature
     = Inr \<lparr>style_fill = Some (fill (getStatusColors (status sydney) False)),
            style_stroke = None\<rparr>"
    by blast
  from map_filter_styles [of ?mc sydney_feature "Some hunter_only" sydney hunter_only]
  have four: "getDefaultStyle \<noteq> empty_style" by blast
  from one two three four show ?thesis by blast
qed

section \<open>The search constraint\<close>

lemma includes_left: "str_includes a t \<Longrightarrow> str_includes (a @ b) t"
  unfolding str_includes_def sublist_def
proof -
  assume "\<exists>ps ss. a = ps @ t @ ss"
  then obtain ps ss where "a = ps @ t @ ss" by blast
  then have "a @ b = ps @ t @ (ss @ b)" by simp
  then show "\<exists>ps ss. a @ b = ps @ t @ ss" by blast
qed

lemma includes_right: "str_includes b t \<Longrightarrow> str_includes (a @ b) t"
  unfolding str_includes_def sublist_def
proof -
  assume "\<exists>ps ss. b = ps @ t @ ss"
  then obtain ps ss where "b = ps @ t @ ss" by blast
  then have "a @ b = (a @ ps) @ t @ ss" by simp
  then show "\<exists>ps ss. a @ b = ps @ t @ ss" by blast
qed

lemma field_match_in_concatenation:
  assumes "str_includes (toLowerCase n) t \<or> str_includes (toLowerCase r) t \<or>
           str_includes (toLowerCase nts) t"
  shows "str_includes (toLowerCase (join_space [n, r, nts])) t"
proof -
  have shape: "toLowerCase (join_space [n, r, nts]) =
      toLowerCase n @ (toLowerCase '' '' @ (toLowerCase r @ (toLowerCase '' '' @ toLowerCase nts)))"
    by (simp add: toLowerCase_def)
  from assms show ?thesis
    unfolding shape by (blast intro: includes_left includes_right)
qed

text \<open>
  C2, as stated: with a non-empty search the filter passes a council exactly when the
  search occurs, ignoring case, in name, region and notes joined by single spaces. The
  list view tests each field on its own, so \<open>sydney metro\<close>, which spans the boundary of
  name and region in the joined text, does not pass Sydney; the utility \<open>filterCouncils\<close>
  joins the contact address as a fourth field, so a search for its domain passes although
  the three joined fields do not contain it.
\<close>

theorem search_is_not_three_field_concatenation:
  "filter_search sydney_metro \<noteq> [] \<and>
   spec_search_matches (filter_search sydney_metro) sydney \<and>
   council_passes sydney_metro sydney = Inr False \<and>
   \<not> spec_search_matches ''example.org'' sydney \<and>
   criteria_pass example_org sydney"
  by code_simp

text \<open>
  C2, amended: with a non-empty search and no status or region constraint, the filter of
  the list view passes a council (one whose notes are a string) exactly when the
  lower-cased search is a substring of the lower-cased name, or of the lower-cased region,
  or of the lower-cased notes, each taken alone; every council that passes also contains
  the search in the three fields joined by single spaces, but a search that spans a field
  boundary does not pass. The utility \<open>filterCouncils\<close> tests the search against name,
  region, notes and contact address joined by single spaces.
\<close>

theorem search_constraint:
  assumes "filter_search f \<noteq> []" and "filter_status f = []" and "filter_region f = []"
    and "council_notes c = Some n"
  shows "council_passes f c =
           Inr (str_includes (toLowerCase (name c)) (toLowerCase (filter_search f)) \<or>
                str_includes (toLowerCase (region c)) (toLowerCase (filter_search f)) \<or>
                str_includes (toLowerCase n) (toLowerCase (filter_search f))) \<and>
         (council_passes f c = Inr True \<longrightarrow> spec_search_matches (filter_search f) c) \<and>
         criteria_pass \<lparr>crit_status = None, crit_region = None,
                         crit_search = Some (filter_search f)\<rparr> c =
           str_includes
             (toLowerCase (join_space [name c, region c, n, or_empty (contactEmail c)]))
             (toLowerCase (filter_search f))"
proof -
  let ?t = "toLowerCase (filter_search f)"
  let ?fields = "str_includes (toLowerCase (name c)) ?t \<or>
                 str_includes (toLowerCase (region c)) ?t \<or> str_includes (toLowerCase n) ?t"
  from assms have passes: "council_passes f c = Inr ?fields"
    by (simp add: council_passes_def Let_def)
  have "?fields \<longrightarrow> spec_search_matches (filter_search f) c"
    using field_match_in_concatenation [of "name c" ?t "region c" n] assms(4)
    by (simp add: spec_search_matches_def or_empty_def)
  with passes have joined: "council_passes f c = Inr True \<longrightarrow>
      spec_search_matches (filter_search f) c"
    by simp
  from assms(1,4) have utility:
    "criteria_pass \<lparr>crit_status = None, crit_region = None,
                    crit_search = Some (filter_search f)\<rparr> c =
     str_includes (toLowerCase (join_space [name c, region c, n, or_empty (contactEmail c)])) ?t"
    by (simp add: criteria_pass_def truthy_def searchableText_def or_empty_def)
  from passes joined utility show ?thesis by blast
qed

theorem search_constraint_witness:
  "council_passes metro_search sydney = Inr True \<and>
   spec_search_matches (filter_search metro_search) sydney \<and>
   criteria_pass \<lparr>crit_status = None, crit_region = None, crit_search = Some ''Metro''\<rparr> sydney"
proof -
  have search: "filter_search metro_search \<noteq> []" "filter_search metro_search = ''Metro''"
    and none: "filter_status metro_search = []" "filter_region metro_search = []"
    by (simp_all add: metro_search_def)
  have nts: "council_notes sydney = Some []"
    by (simp add: sydney_def mk_council_def)
  have fields: "str_includes (toLowerCase (region sydney)) (toLowerCase ''Metro'')"
    by code_simp
  have joined: "str_includes
      (toLowerCase (join_space [name sydney, region sydney, [], or_empty (contactEmail sydney)]))
      (toLowerCase ''Metro'')"
    by code_simp
  from search_constraint [OF search(1) none nts] search(2) fields joined
  show ?thesis by simp
qed

section \<open>The two steps of the resolution\<close>

lemma find_after_misses:
  "\<not> list_ex P before \<Longrightarrow> P c \<Longrightarrow> find P (before @ c # rest) = Some c"
  by (induction before) simp_all

lemma find_some_match:
  "P c \<Longrightarrow> c \<in> set cs \<Longrightarrow> \<exists>r. find P cs = Some r \<and> P r \<and> r \<in> set cs"
proof -
  assume "P c" and "c \<in> set cs"
  then have "find P cs \<noteq> None"
    by (auto simp: find_None_iff)
  then obtain r where r: "find P cs = Some r" by blast
  then have "P r \<and> r \<in> set cs"
    by (auto simp: find_Some_iff)
  with r show ?thesis by blast
qed

lemma resolution_after_miss:
  assumes "mapping_miss mc g" and "g \<noteq> []"
  shows "findCouncilByName mc (Some g) = Inr (fuzzy_find (councils mc) g)"
  using assms
  by (auto simp: findCouncilByName_def mapping_miss_def split: option.splits lookup.splits)

lemma reverse_lookup_last:
  assumes "(k0, g) \<in> set m" and "g \<noteq> ''__proto__''"
  shows "\<exists>before ourName after.
           m = before @ (ourName, g) # after \<and> g \<notin> snd ` set after \<and>
           reverse_lookup m g = Own ourName"
proof -
  let ?hit = "\<lambda>(ourName :: string, gisFullName). gisFullName = g"
  from assms(1) have "\<exists>e\<in>set m. ?hit e" by auto
  then obtain before e after where
    split: "m = before @ e # after" and hit: "?hit e" and none: "\<forall>z\<in>set after. \<not> ?hit z"
    by (rule split_list_last_propE)
  from hit obtain ourName where e: "e = (ourName, g)"
    by (cases e) auto
  from none have later: "g \<notin> snd ` set after"
    by auto
  from none have "filter ?hit after = []"
    by (simp add: filter_empty_conv)
  with split hit have hits: "filter ?hit m = filter ?hit before @ [e]"
    by simp
  then have "filter ?hit m \<noteq> []" by simp
  then obtain h hs where cons: "filter ?hit m = h # hs"
    unfolding neq_Nil_conv by blast
  from hits have "last (filter ?hit m) = e" by simp
  with cons e have "fst (last (h # hs)) = ourName" by simp
  with cons assms(2) have "reverse_lookup m g = Own ourName"
    by (simp add: reverse_lookup_def)
  with split e later show ?thesis by blast
qed

lemma reverse_lookup_missing:
  assumes "g \<notin> snd ` set m" and "g \<notin> set object_prototype_keys"
  shows "reverse_lookup m g = Missing"
proof -
  from assms(1) have "filter (\<lambda>(ourName, gisFullName). gisFullName = g) m = []"
    by (auto simp: filter_empty_conv image_iff)
  moreover from assms(2) have "g \<noteq> ''__proto__''"
    by (auto simp: object_prototype_keys_def)
  ultimately show ?thesis
    using assms(2) by (simp add: reverse_lookup_def)
qed

text \<open>
  C1, as stated: when the candidate is a value of the mapping but the catalog has no
  council for the mapped name, the resolution goes on to the fuzzy comparison. Here the
  mapping sends \<open>LITHGOW\<close> to the candidate while the catalog calls the council
  \<open>Lithgow City\<close>: the fuzzy comparison alone finds the council, the resolution returns
  nothing.
\<close>

theorem mapping_hit_catalog_miss:
  "(''LITHGOW'', ''Lithgow City Council'') \<in> set drifted_mapping \<and>
   find (mapped_match ''LITHGOW'') [lithgow] = None \<and>
   fuzzy_find [lithgow] ''Lithgow City Council'' = Some lithgow \<and>
   findCouncilByName \<lparr>councils = [lithgow], nameMapping = Some drifted_mapping\<rparr>
     (Some ''Lithgow City Council'') = Inr None"
  by code_simp

text \<open>
  C1, amended: the candidate is looked up in the reverse index as it is, by equality of
  strings (a name that is no value of the mapping and no inherited property name is not
  found, however it is cased). For a non-empty candidate that is a value of the mapping
  (other than \<open>__proto__\<close>), the index gives the key of the last entry of the mapping
  with that value; if that key is not empty, the resolution returns the first council in
  catalog order whose upper-cased name equals the upper-cased key, either as it is or
  after every run of whitespace in both has been replaced by one blank, and returns
  nothing when there is no such council. It does not go on to the fuzzy comparison.
\<close>

theorem mapping_hit_resolution:
  assumes "(k0, g) \<in> set m" and "g \<noteq> []" and "g \<noteq> ''__proto__''"
  shows "\<exists>before ourName after.
           m = before @ (ourName, g) # after \<and> g \<notin> snd ` set after \<and>
           reverse_lookup m g = Own ourName \<and>
           (ourName \<noteq> [] \<longrightarrow>
              findCouncilByName \<lparr>councils = cs, nameMapping = Some m\<rparr> (Some g) =
                Inr (find (\<lambda>c. toUpperCase (name c) = toUpperCase ourName \<or>
                               collapse_ws (toUpperCase (name c)) =
                                 collapse_ws (toUpperCase ourName)) cs)) \<and>
           (ourName \<noteq> [] \<and>
            list_all (\<lambda>c. toUpperCase (name c) \<noteq> toUpperCase ourName \<and>
                           collapse_ws (toUpperCase (name c)) \<noteq>
                             collapse_ws (toUpperCase ourName)) cs \<longrightarrow>
              findCouncilByName \<lparr>councils = cs, nameMapping = Some m\<rparr> (Some g) = Inr None) \<and>
           (g' \<notin> snd ` set m \<and> g' \<notin> set object_prototype_keys \<longrightarrow>
              reverse_lookup m g' = Missing)"
proof -
  from reverse_lookup_last [OF assms(1,3)] obtain before k after where
    k: "m = before @ (k, g) # after" "g \<notin> snd ` set after" "reverse_lookup m g = Own k"
    by blast
  let ?same = "\<lambda>c. toUpperCase (name c) = toUpperCase k \<or>
      collapse_ws (toUpperCase (name c)) = collapse_ws (toUpperCase k)"
  have callback: "mapped_match k = ?same"
    by (rule ext) (simp add: mapped_match_def)
  from k(3) assms(2) have hit: "k \<noteq> [] \<longrightarrow>
      findCouncilByName \<lparr>councils = cs, nameMapping = Some m\<rparr> (Some g) = Inr (find ?same cs)"
    by (simp add: findCouncilByName_def callback)
  have "find ?same cs = None"
    if "list_all (\<lambda>c. toUpperCase (name c) \<noteq> toUpperCase k \<and>
          collapse_ws (toUpperCase (name c)) \<noteq> collapse_ws (toUpperCase k)) cs"
    using that by (auto simp: find_None_iff list_all_iff)
  with hit have miss: "k \<noteq> [] \<and>
      list_all (\<lambda>c. toUpperCase (name c) \<noteq> toUpperCase k \<and>
          collapse_ws (toUpperCase (name c)) \<noteq> collapse_ws (toUpperCase k)) cs \<longrightarrow>
      findCouncilByName \<lparr>councils = cs, nameMapping = Some m\<rparr> (Some g) = Inr None"
    by simp
  from k hit miss reverse_lookup_missing [of g' m] show ?thesis by blast
qed

theorem mapping_hit_resolution_witness:
  "reverse_lookup duplicate_mapping ''Council of the City of Sydney'' = Own ''SYDNEY'' \<and>
   findCouncilByName \<lparr>councils = [lithgow, sydney], nameMapping = Some duplicate_mapping\<rparr>
     (Some ''Council of the City of Sydney'') = Inr (Some sydney) \<and>
   findCouncilByName \<lparr>councils = [lithgow, north_sydney], nameMapping = Some spaced_mapping\<rparr>
     (Some ''North Sydney Council'') = Inr (Some north_sydney) \<and>
   reverse_lookup duplicate_mapping ''COUNCIL OF THE CITY OF SYDNEY'' = Missing"
proof -
  let ?g = "''Council of the City of Sydney''"
  let ?h = "''North Sydney Council''"
  let ?other = "''COUNCIL OF THE CITY OF SYDNEY''"
  have entry: "(''LITHGOW CITY'', ?g) \<in> set duplicate_mapping"
    by (simp add: duplicate_mapping_def)
  have other: "?other \<notin> snd ` set duplicate_mapping" "?other \<notin> set object_prototype_keys"
    by (simp_all add: duplicate_mapping_def object_prototype_keys_def)
  have last_key: "reverse_lookup duplicate_mapping ?g = Own ''SYDNEY''"
    by code_simp
  have found: "find (\<lambda>c. toUpperCase (name c) = toUpperCase ''SYDNEY'' \<or>
      collapse_ws (toUpperCase (name c)) = collapse_ws (toUpperCase ''SYDNEY''))
      [lithgow, sydney] = Some sydney"
    by code_simp
  from mapping_hit_resolution [OF entry, of "[lithgow, sydney]" ?other] other
  obtain k where k: "reverse_lookup duplicate_mapping ?g = Own k"
      "k \<noteq> [] \<longrightarrow>
         findCouncilByName \<lparr>councils = [lithgow, sydney], nameMapping = Some duplicate_mapping\<rparr>
           (Some ?g) =
         Inr (find (\<lambda>c. toUpperCase (name c) = toUpperCase k \<or>
           collapse_ws (toUpperCase (name c)) = collapse_ws (toUpperCase k)) [lithgow, sydney])"
      "reverse_lookup duplicate_mapping ?other = Missing"
    by auto
  from k(1) last_key have "k = ''SYDNEY''" by simp
  with k(2) found have first: "findCouncilByName
      \<lparr>councils = [lithgow, sydney], nameMapping = Some duplicate_mapping\<rparr> (Some ?g) =
      Inr (Some sydney)"
    by simp
  have entry': "(''NORTH  SYDNEY'', ?h) \<in> set spaced_mapping"
    by (simp add: spaced_mapping_def)
  have spaced_key: "reverse_lookup spaced_mapping ?h = Own ''NORTH  SYDNEY''"
    by code_simp
  have found': "find (\<lambda>c. toUpperCase (name c) = toUpperCase ''NORTH  SYDNEY'' \<or>
      collapse_ws (toUpperCase (name c)) = collapse_ws (toUpperCase ''NORTH  SYDNEY''))
      [lithgow, north_sydney] = Some north_sydney"
    by code_simp
  from mapping_hit_resolution [OF entry', of "[lithgow, north_sydney]" ?other]
  obtain k' where k': "reverse_lookup spaced_mapping ?h = Own k'"
      "k' \<noteq> [] \<longrightarrow>
         findCouncilByName \<lparr>councils = [lithgow, north_sydney], nameMapping = Some spaced_mapping\<rparr>
           (Some ?h) =
         Inr (find (\<lambda>c. toUpperCase (name c) = toUpperCase k' \<or>
           collapse_ws (toUpperCase (name c)) = collapse_ws (toUpperCase k')) [lithgow, north_sydney])"
    by auto
  from k'(1) spaced_key have "k' = ''NORTH  SYDNEY''" by simp
  with k'(2) found' have second: "findCouncilByName
      \<lparr>councils = [lithgow, north_sydney], nameMapping = Some spaced_mapping\<rparr> (Some ?h) =
      Inr (Some north_sydney)"
    by simp
  from last_key first second k(3) show ?thesis by simp
qed

text \<open>
  C7, as stated: any catalog that contains the record of \<open>LITHGOW CITY\<close> resolves
  \<open>Lithgow City Council\<close> to that record when the mapping has no entry. The first council
  in catalog order that matches is returned, and here an earlier record, Lithgow Shire,
  has the same normal form \<open>LITHGOW\<close>.
\<close>

theorem earlier_match_wins:
  "lithgow \<in> set [lithgow_shire, lithgow] \<and>
   name lithgow = titleCase ''LITHGOW CITY'' \<and>
   findCouncilByName \<lparr>councils = [lithgow_shire, lithgow], nameMapping = None\<rparr>
     (Some ''Lithgow City Council'') = Inr (Some lithgow_shire) \<and>
   lithgow_shire \<noteq> lithgow"
  by code_simp

lemma clean_lithgow_candidate: "cleanGisName ''Lithgow City Council'' = ''LITHGOW''"
  by code_simp

lemma clean_lithgow_record: "cleanCouncilName (titleCase ''LITHGOW CITY'') = ''LITHGOW''"
  by code_simp

lemma lithgow_not_exact:
  "toUpperCase (titleCase ''LITHGOW CITY'') \<noteq> normalizedGisName ''Lithgow City Council''"
  by code_simp

text \<open>
  C7, amended: let the first step miss for \<open>Lithgow City Council\<close> (no mapping, or no
  entry for that name) and let the catalog contain the record built from the key
  \<open>LITHGOW CITY\<close>. Both names lose their qualifier words and become \<open>LITHGOW\<close>, so the
  record matches by equality of the normal forms, not by the exact comparison. The
  resolution returns a record, the first one in catalog order that matches; it is that
  record whenever no record before it in the catalog matches as well.
\<close>

theorem lithgow_fuzzy_resolution:
  assumes "mapping_miss mc ''Lithgow City Council''"
    and "councils mc = before @ c # rest"
    and "name c = titleCase ''LITHGOW CITY''"
  shows "cleanGisName ''Lithgow City Council'' = cleanCouncilName (name c) \<and>
         toUpperCase (name c) \<noteq> normalizedGisName ''Lithgow City Council'' \<and>
         (\<exists>r. findCouncilByName mc (Some ''Lithgow City Council'') = Inr (Some r) \<and>
              fuzzy_match ''Lithgow City Council'' r \<and> r \<in> set (councils mc)) \<and>
         (\<not> list_ex (fuzzy_match ''Lithgow City Council'') before \<longrightarrow>
            findCouncilByName mc (Some ''Lithgow City Council'') = Inr (Some c))"
proof -
  let ?g = "''Lithgow City Council''"
  from assms(3) have equal: "cleanGisName ?g = cleanCouncilName (name c)"
    and inexact: "toUpperCase (name c) \<noteq> normalizedGisName ?g"
    by (simp_all add: clean_lithgow_candidate clean_lithgow_record lithgow_not_exact)
  then have matches: "fuzzy_match ?g c"
    by (simp add: fuzzy_match_def)
  have resolved: "findCouncilByName mc (Some ?g) = Inr (fuzzy_find (councils mc) ?g)"
    by (rule resolution_after_miss [OF assms(1)]) simp
  from assms(2) have "c \<in> set (councils mc)" by simp
  from find_some_match [of "fuzzy_match ?g", OF matches this] resolved
  have some: "\<exists>r. findCouncilByName mc (Some ?g) = Inr (Some r) \<and>
      fuzzy_match ?g r \<and> r \<in> set (councils mc)"
    by (auto simp: fuzzy_find_def)
  have "\<not> list_ex (fuzzy_match ?g) before \<longrightarrow>
      findCouncilByName mc (Some ?g) = Inr (Some c)"
    using resolved assms(2) matches by (simp add: fuzzy_find_def find_after_misses)
  with equal inexact some show ?thesis by blast
qed

theorem lithgow_fuzzy_resolution_witness:
  "mapping_miss \<lparr>councils = [sydney, lithgow], nameMapping = Some sydney_mapping\<rparr>
     ''Lithgow City Council'' \<and>
   findCouncilByName \<lparr>councils = [sydney, lithgow], nameMapping = Some sydney_mapping\<rparr>
     (Some ''Lithgow City Council'') = Inr (Some lithgow)"
proof -
  let ?mc = "\<lparr>councils = [sydney, lithgow], nameMapping = Some sydney_mapping\<rparr>"
  have miss: "mapping_miss ?mc ''Lithgow City Council''"
    by code_simp
  have cat: "councils ?mc = [sydney] @ lithgow # []"
    by simp
  have built: "name lithgow = titleCase ''LITHGOW CITY''"
    by (simp add: lithgow_def mk_council_def)
  have before: "\<not> list_ex (fuzzy_match ''Lithgow City Council'') [sydney]"
    by code_simp
  from lithgow_fuzzy_resolution [OF miss cat built] before miss
  show ?thesis by blast
qed

section \<open>Normal forms of names\<close>

lemma space_not_word: "is_space c \<Longrightarrow> \<not> is_word_char c"
  by (auto simp: is_space_def is_word_char_def is_upper_char_def is_lower_char_def is_digit_char_def)

lemma word_run_match:
  assumes "list_all is_word_char p"
  shows "(prefix p s \<and> word_boundary True (drop (length p) s)) \<longleftrightarrow> takeWhile is_word_char s = p"
proof
  assume h: "prefix p s \<and> word_boundary True (drop (length p) s)"
  then obtain r where s: "s = p @ r" by (auto simp: prefix_def)
  with h have "r = [] \<or> \<not> is_word_char (hd r)"
    by (cases r) (auto simp: word_boundary_def)
  then have "takeWhile is_word_char r = []"
    by (cases r) auto
  with assms s show "takeWhile is_word_char s = p"
    by (simp add: list_all_iff takeWhile_append2)
next
  assume t: "takeWhile is_word_char s = p"
  have split: "s = p @ dropWhile is_word_char s"
    using takeWhile_dropWhile_id [of is_word_char s] t by simp
  have len: "length p = length (takeWhile is_word_char s)" using t by simp
  have "drop (length p) s = dropWhile is_word_char s"
    by (metis append_eq_conv_conj split)
  moreover have "word_boundary True (dropWhile is_word_char s)"
  proof (cases "dropWhile is_word_char s")
    case Nil
    show ?thesis unfolding Nil by (simp add: word_boundary_def)
  next
    case (Cons d ds)
    with hd_dropWhile [of is_word_char s] have "\<not> is_word_char d" by simp
    then show ?thesis unfolding Cons by (simp add: word_boundary_def)
  qed
  ultimately show "prefix p s \<and> word_boundary True (drop (length p) s)"
    using split by (metis prefixI)
qed

lemma match_at_single_words:
  assumes "single_words alts"
  shows "match_at alts prev s =
     (if prev then None else find (\<lambda>p. takeWhile is_word_char s = p) alts)"
proof (cases prev)
  case True
  have "find (alt_matches True s) alts = None" if "word_boundary True s"
  proof -
    from that have nw: "s = [] \<or> \<not> is_word_char (hd s)"
      by (cases s) (auto simp: word_boundary_def)
    have "\<not> alt_matches True s p" if "p \<in> set alts" for p
    proof -
      from assms that have p: "p \<noteq> []" "list_all is_word_char p"
        by (auto simp: single_words_def list_all_iff)
      then have "is_word_char (hd p)" by (cases p) auto
      with nw p(1) have "\<not> prefix p s"
        by (cases p; cases s) auto
      then show ?thesis by (simp add: alt_matches_def)
    qed
    then show ?thesis by (auto simp: find_None_iff)
  qed
  with True show ?thesis by (simp add: match_at_def)
next
  case False
  have same: "alt_matches False s p = (takeWhile is_word_char s = p)" if "p \<in> set alts" for p
  proof -
    from assms that have p: "p \<noteq> []" "list_all is_word_char p"
      by (auto simp: single_words_def list_all_iff)
    then have "is_word_char (last p)"
      by (auto simp: list_all_iff)
    with p(1) have "alt_matches False s p =
        (prefix p s \<and> word_boundary True (drop (length p) s))"
      by (simp add: alt_matches_def)
    with word_run_match [OF p(2)] show ?thesis by simp
  qed
  have found: "find (alt_matches False s) alts = find (\<lambda>p. takeWhile is_word_char s = p) alts"
    by (rule find_cong) (auto simp: same)
  show ?thesis
  proof (cases "word_boundary False s")
    case True
    with False found show ?thesis by (simp add: match_at_def)
  next
    case nb: False
    then have "takeWhile is_word_char s = []"
      by (cases s) (auto simp: word_boundary_def)
    moreover from assms have "[] \<notin> set alts"
      by (auto simp: single_words_def list_all_iff)
    ultimately have "find (\<lambda>p. takeWhile is_word_char s = p) alts = None"
      by (auto simp: find_None_iff)
    with False nb show ?thesis by (simp add: match_at_def)
  qed
qed

lemma find_equal: "find (\<lambda>p. t = p) alts = (if t \<in> set alts then Some t else None)"
  by (induction alts) auto

lemma replace_step:
  assumes "single_words alts"
  shows "replace_alts alts prev (c # cs) =
     (if \<not> prev \<and> takeWhile is_word_char (c # cs) \<in> set alts
      then replace_alts alts True (dropWhile is_word_char (c # cs))
      else c # replace_alts alts (is_word_char c) cs)"
proof -
  define t where "t = takeWhile is_word_char (c # cs)"
  define r where "r = dropWhile is_word_char (c # cs)"
  have split: "c # cs = t @ r"
    unfolding t_def r_def by (simp only: takeWhile_dropWhile_id)
  have found: "match_at alts prev (c # cs) = (if \<not> prev \<and> t \<in> set alts then Some t else None)"
    unfolding t_def by (simp only: match_at_single_words [OF assms] find_equal) simp
  show ?thesis
  proof (cases "\<not> prev \<and> t \<in> set alts")
    case True
    with assms have t: "t \<noteq> []" "list_all is_word_char t"
      unfolding single_words_def list_all_iff by blast+
    from t(1) have "last t \<in> set t" by (rule last_in_set)
    with t(2) have last: "is_word_char (last t)"
      unfolding list_all_iff by blast
    have drop: "drop (length t) (c # cs) = r"
      unfolding split by simp
    from True found have "match_at alts prev (c # cs) = Some t" by simp
    with t(1) have "replace_alts alts prev (c # cs) =
        replace_alts alts (is_word_char (last t)) (drop (length t) (c # cs))"
      by (simp del: drop_Suc_Cons)
    with last drop have "replace_alts alts prev (c # cs) = replace_alts alts True r"
      by (simp only: simp_thms)
    with True show ?thesis
      unfolding t_def [symmetric] r_def [symmetric] by (simp only: if_True simp_thms)
  next
    case False
    with found have "match_at alts prev (c # cs) = None" by simp
    then have "replace_alts alts prev (c # cs) = c # replace_alts alts (is_word_char c) cs"
      by simp
    with False show ?thesis
      unfolding t_def [symmetric] r_def [symmetric] by (simp only: if_False simp_thms)
  qed
qed

lemma replace_step_word:
  assumes "single_words alts"
  shows "replace_alts alts True (c # cs) = c # replace_alts alts (is_word_char c) cs"
  by (subst replace_step [OF assms]) (simp only: not_True_eq_False simp_thms if_False)

lemma takeWhile_replace:
  assumes "single_words alts"
  shows "takeWhile is_word_char (replace_alts alts True s) = takeWhile is_word_char s"
proof (induction s)
  case Nil
  show ?case by simp
next
  case (Cons c cs)
  then show ?case
    by (simp add: replace_step_word [OF assms] del: replace_alts.simps(2))
qed

lemma no_match_step:
  assumes "single_words alts"
  shows "no_match alts prev (c # cs) =
     ((prev \<or> takeWhile is_word_char (c # cs) \<notin> set alts) \<and> no_match alts (is_word_char c) cs)"
  by (auto simp: match_at_single_words [OF assms] find_equal simp del: takeWhile.simps)

lemma no_match_fix: "no_match alts prev s \<Longrightarrow> replace_alts alts prev s = s"
  by (induction s arbitrary: prev) auto

lemma no_match_replace:
  assumes "single_words alts"
  shows "q = p \<or> s = [] \<or> \<not> is_word_char (hd s) \<Longrightarrow> no_match alts q (replace_alts alts p s)"
proof (induction "length s" arbitrary: s p q rule: less_induct)
  case less
  show ?case
  proof (cases s)
    case Nil
    then show ?thesis by simp
  next
    case (Cons c cs)
    from assms have no_empty: "[] \<notin> set alts"
      by (auto simp: single_words_def list_all_iff)
    show ?thesis
    proof (cases "\<not> p \<and> takeWhile is_word_char (c # cs) \<in> set alts")
      case True
      let ?r = "dropWhile is_word_char (c # cs)"
      have step: "replace_alts alts p s = replace_alts alts True ?r"
        unfolding Cons by (subst replace_step [OF assms], rule if_P, rule True)
      from True no_empty have "is_word_char c"
        by (auto split: if_splits)
      then have shorter: "length ?r < length s"
        unfolding Cons by (simp add: length_dropWhile_le less_Suc_eq_le)
      have "?r = [] \<or> \<not> is_word_char (hd ?r)"
        using hd_dropWhile [of is_word_char "c # cs"] by blast
      then have "q = True \<or> ?r = [] \<or> \<not> is_word_char (hd ?r)"
        by blast
      then have "no_match alts q (replace_alts alts True ?r)"
        by (rule less.hyps [OF shorter])
      then show ?thesis by (simp only: step)
    next
      case False
      let ?R = "replace_alts alts (is_word_char c) cs"
      have step: "replace_alts alts p s = c # ?R"
        unfolding Cons by (subst replace_step [OF assms], rule if_not_P, rule False)
      have "length cs < length s"
        unfolding Cons by simp
      then have rest: "no_match alts (is_word_char c) ?R"
        by (rule less.hyps) simp
      have here: "q \<or> takeWhile is_word_char (c # ?R) \<notin> set alts"
      proof (cases "is_word_char c")
        case nonword: False
        with no_empty show ?thesis by simp
      next
        case word: True
        with less.prems have "q = p" unfolding Cons by simp
        moreover from word have "takeWhile is_word_char (c # ?R) = takeWhile is_word_char (c # cs)"
          by (simp add: takeWhile_replace [OF assms])
        ultimately show ?thesis using False by auto
      qed
      from here rest have "no_match alts q (c # ?R)"
        by (subst no_match_step [OF assms]) blast
      then show ?thesis by (simp only: step)
    qed
  qed
qed

subsection \<open>Whitespace\<close>

lemma no_match_nonword:
  assumes "single_words alts" and "\<not> is_word_char c"
  shows "no_match alts prev (c # cs) = no_match alts False cs"
proof -
  from assms(1) have "[] \<notin> set alts"
    by (auto simp: single_words_def list_all_iff)
  with assms(2) show ?thesis
    by (subst no_match_step [OF assms(1)]) simp
qed

lemma no_match_dropWhile_space:
  assumes "single_words alts"
  shows "no_match alts False s \<Longrightarrow> no_match alts False (dropWhile is_space s)"
proof (induction s)
  case Nil
  then show ?case by simp
next
  case (Cons c cs)
  show ?case
  proof (cases "is_space c")
    case True
    with Cons.prems have "no_match alts False cs"
      by (simp only: no_match_nonword [OF assms space_not_word])
    with True Cons.IH show ?thesis by simp
  next
    case False
    with Cons.prems show ?thesis by (simp del: no_match.simps)
  qed
qed

lemma takeWhile_collapse:
  "takeWhile is_word_char (collapse_ws s) = takeWhile is_word_char s"
proof (induction s rule: collapse_ws.induct)
  case 1
  show ?case by simp
next
  case (2 c cs)
  have blank: "\<not> is_word_char CHR '' ''"
    by (rule space_not_word) (simp add: is_space_def)
  show ?case
  proof (cases "is_space c")
    case True
    with blank space_not_word [OF True] show ?thesis by simp
  next
    case False
    with 2 show ?thesis by simp
  qed
qed

lemma no_match_collapse:
  assumes "single_words alts"
  shows "no_match alts prev s \<Longrightarrow> no_match alts prev (collapse_ws s)"
proof (induction s arbitrary: prev rule: collapse_ws.induct)
  case 1
  show ?case by simp
next
  case (2 c cs)
  have blank: "\<not> is_word_char CHR '' ''"
    by (rule space_not_word) (simp add: is_space_def)
  show ?case
  proof (cases "is_space c")
    case True
    from "2.prems" have "no_match alts False cs"
      by (simp only: no_match_nonword [OF assms space_not_word [OF True]])
    then have "no_match alts False (dropWhile is_space cs)"
      by (rule no_match_dropWhile_space [OF assms])
    then have "no_match alts False (collapse_ws (dropWhile is_space cs))"
      by (rule "2.IH"(1) [OF True])
    then have "no_match alts prev (CHR '' '' # collapse_ws (dropWhile is_space cs))"
      by (simp only: no_match_nonword [OF assms blank])
    with True show ?thesis by simp
  next
    case False
    from "2.prems" have here: "prev \<or> takeWhile is_word_char (c # cs) \<notin> set alts"
      and rest: "no_match alts (is_word_char c) cs"
      by (simp_all only: no_match_step [OF assms])
    from rest have "no_match alts (is_word_char c) (collapse_ws cs)"
      by (rule "2.IH"(2) [OF False])
    moreover have "takeWhile is_word_char (c # collapse_ws cs) = takeWhile is_word_char (c # cs)"
      by (simp add: takeWhile_collapse)
    with here have "prev \<or> takeWhile is_word_char (c # collapse_ws cs) \<notin> set alts"
      by (simp only:)
    ultimately have "no_match alts prev (c # collapse_ws cs)"
      by (subst no_match_step [OF assms]) blast
    with False show ?thesis by simp
  qed
qed

lemma takeWhile_trimEnd:
  "takeWhile is_word_char (trimEnd s) = takeWhile is_word_char s"
proof (induction s)
  case Nil
  show ?case by simp
next
  case (Cons c cs)
  then show ?case
    by (auto dest: space_not_word)
qed

lemma no_match_trimEnd:
  assumes "single_words alts"
  shows "no_match alts prev s \<Longrightarrow> no_match alts prev (trimEnd s)"
proof (induction s arbitrary: prev)
  case Nil
  show ?case by simp
next
  case (Cons c cs)
  show ?case
  proof (cases "is_space c \<and> trimEnd cs = []")
    case True
    then show ?thesis by simp
  next
    case False
    from Cons.prems have here: "prev \<or> takeWhile is_word_char (c # cs) \<notin> set alts"
      and rest: "no_match alts (is_word_char c) cs"
      by (simp_all only: no_match_step [OF assms])
    from rest have "no_match alts (is_word_char c) (trimEnd cs)"
      by (rule Cons.IH)
    moreover have "takeWhile is_word_char (c # trimEnd cs) = takeWhile is_word_char (c # cs)"
      by (simp add: takeWhile_trimEnd)
    with here have "prev \<or> takeWhile is_word_char (c # trimEnd cs) \<notin> set alts"
      by (simp only:)
    ultimately have "no_match alts prev (c # trimEnd cs)"
      by (subst no_match_step [OF assms]) blast
    with False show ?thesis by auto
  qed
qed

lemma no_match_trim:
  assumes "single_words alts"
  shows "no_match alts False s \<Longrightarrow> no_match alts False (trim s)"
  unfolding trim_def
  by (intro no_match_trimEnd [OF assms] no_match_dropWhile_space [OF assms])

lemma single_spaced_collapse: "single_spaced (collapse_ws s)"
proof (induction s rule: collapse_ws.induct)
  case 1
  show ?case by simp
next
  case (2 c cs)
  show ?case
  proof (cases "is_space c")
    case True
    let ?r = "dropWhile is_space cs"
    have "case collapse_ws ?r of [] \<Rightarrow> True | d # _ \<Rightarrow> \<not> is_space d"
    proof (cases ?r)
      case Nil
      show ?thesis unfolding Nil by simp
    next
      case (Cons d ds)
      with hd_dropWhile [of is_space cs] have "\<not> is_space d" by simp
      then show ?thesis unfolding Cons by simp
    qed
    with True "2.IH"(1) show ?thesis by (simp add: is_space_def)
  next
    case False
    with "2.IH"(2) show ?thesis by simp
  qed
qed

lemma single_spaced_fix: "single_spaced s \<Longrightarrow> collapse_ws s = s"
proof (induction s)
  case Nil
  show ?case by simp
next
  case (Cons c cs)
  show ?case
  proof (cases "is_space c")
    case True
    with Cons.prems have c: "c = CHR '' ''" and next_one: "cs = [] \<or> \<not> is_space (hd cs)"
      and rest: "single_spaced cs"
      by (auto split: list.splits)
    from next_one have "dropWhile is_space cs = cs"
      by (cases cs) auto
    with True c Cons.IH [OF rest] show ?thesis by simp
  next
    case False
    with Cons show ?thesis by simp
  qed
qed

lemma single_spaced_dropWhile: "single_spaced s \<Longrightarrow> single_spaced (dropWhile is_space s)"
  by (induction s) auto

lemma trimEnd_head: "trimEnd s \<noteq> [] \<Longrightarrow> hd (trimEnd s) = hd s"
  by (cases s) (auto split: if_splits)

lemma single_spaced_trimEnd: "single_spaced s \<Longrightarrow> single_spaced (trimEnd s)"
proof (induction s)
  case Nil
  show ?case by simp
next
  case (Cons c cs)
  show ?case
  proof (cases "is_space c \<and> trimEnd cs = []")
    case True
    then show ?thesis by simp
  next
    case False
    from Cons have rest: "single_spaced (trimEnd cs)" by simp
    have "c = CHR '' '' \<and> (case trimEnd cs of [] \<Rightarrow> True | d # _ \<Rightarrow> \<not> is_space d)"
      if sp: "is_space c"
    proof -
      from sp False have ne: "trimEnd cs \<noteq> []" by simp
      then have "cs \<noteq> []" by auto
      with sp Cons.prems have "c = CHR '' ''" "\<not> is_space (hd cs)"
        by (auto split: list.splits)
      with ne trimEnd_head [OF ne] show ?thesis
        by (cases "trimEnd cs") auto
    qed
    with rest False show ?thesis by auto
  qed
qed

lemma trimEnd_idem: "trimEnd (trimEnd s) = trimEnd s"
  by (induction s) auto

lemma trim_idem: "trim (trim s) = trim s"
proof -
  let ?r = "dropWhile is_space s"
  have "trimEnd ?r = [] \<or> \<not> is_space (hd (trimEnd ?r))"
  proof (cases "trimEnd ?r = []")
    case True
    then show ?thesis by simp
  next
    case False
    have "?r \<noteq> []"
    proof
      assume "?r = []"
      then have "trimEnd ?r = []" by (simp only: trimEnd.simps)
      with False show False by simp
    qed
    with hd_dropWhile [of is_space s] have "\<not> is_space (hd ?r)" by simp
    with trimEnd_head [OF False] show ?thesis by simp
  qed
  then have "dropWhile is_space (trimEnd ?r) = trimEnd ?r"
    by (cases "trimEnd ?r") auto
  then show ?thesis
    by (simp add: trim_def trimEnd_idem)
qed

subsection \<open>Upper case\<close>

lemma upper_char_idem: "upper_char (upper_char c) = upper_char c"
proof (cases "is_lower_char c")
  case True
  define n :: nat where "n = of_char c"
  from True have range: "97 \<le> n" "n \<le> 122"
    by (simp_all add: is_lower_char_def n_def)
  then have "n - 32 < 256" by linarith
  then have "of_char (char_of (n - 32) :: char) = n - 32"
    by simp
  with range have "\<not> is_lower_char (char_of (n - 32))"
    by (simp add: is_lower_char_def)
  with True show ?thesis by (simp add: upper_char_def n_def)
next
  case False
  then show ?thesis by (simp add: upper_char_def)
qed

lemma toUpperCase_idem: "toUpperCase (toUpperCase s) = toUpperCase s"
  by (simp add: toUpperCase_def upper_char_idem)

lemma toUpperCase_fixed: "toUpperCase s = s \<longleftrightarrow> (\<forall>c\<in>set s. upper_char c = c)"
  by (induction s) (auto simp: toUpperCase_def)

lemma set_replace_alts: "set (replace_alts alts prev s) \<subseteq> set s"
proof (induction alts prev s rule: replace_alts.induct)
  case (1 alts prev)
  show ?case by simp
next
  case (2 alts prev c cs)
  show ?case
  proof (cases "match_at alts prev (c # cs)")
    case None
    with 2(1) show ?thesis by auto
  next
    case (Some p)
    show ?thesis
    proof (cases "p = []")
      case True
      with Some 2(2) show ?thesis by auto
    next
      case False
      with Some 2(3) have "set (replace_alts alts prev (c # cs)) \<subseteq> set (drop (length p) (c # cs))"
        by (simp del: drop_Suc_Cons)
      also have "\<dots> \<subseteq> set (c # cs)" by (rule set_drop_subset)
      finally show ?thesis .
    qed
  qed
qed

lemma set_collapse_ws: "set (collapse_ws s) \<subseteq> insert CHR '' '' (set s)"
proof (induction s rule: collapse_ws.induct)
  case 1
  show ?case by simp
next
  case (2 c cs)
  show ?case
  proof (cases "is_space c")
    case True
    with "2.IH"(1) set_dropWhileD [of _ is_space cs] show ?thesis by auto
  next
    case False
    with "2.IH"(2) show ?thesis by auto
  qed
qed

lemma set_trimEnd: "set (trimEnd s) \<subseteq> set s"
  by (induction s) auto

lemma set_trim: "set (trim s) \<subseteq> set s"
  using set_trimEnd [of "dropWhile is_space s"] set_dropWhileD [of _ is_space s]
  by (auto simp: trim_def)

lemma upper_blank: "upper_char CHR '' '' = CHR '' ''"
  by (simp add: upper_char_def is_lower_char_def)

lemma toUpperCase_normal_form:
  assumes "toUpperCase u = u"
  shows "toUpperCase (trim (collapse_ws (replace_alts alts prev u))) =
         trim (collapse_ws (replace_alts alts prev u))"
proof -
  have "upper_char c = c" if "c \<in> set (trim (collapse_ws (replace_alts alts prev u)))" for c
  proof -
    from that set_trim have "c \<in> set (collapse_ws (replace_alts alts prev u))" by blast
    with set_collapse_ws have "c = CHR '' '' \<or> c \<in> set (replace_alts alts prev u)" by blast
    with set_replace_alts have "c = CHR '' '' \<or> c \<in> set u" by blast
    with assms upper_blank show ?thesis by (auto simp: toUpperCase_fixed)
  qed
  then show ?thesis by (simp add: toUpperCase_fixed)
qed

subsection \<open>The normal form is a fixed point\<close>

lemma normal_form_fixed:
  assumes "single_words alts"
  shows "replace_alts alts False (trim (collapse_ws (replace_alts alts False u))) =
           trim (collapse_ws (replace_alts alts False u))"
    and "collapse_ws (trim (collapse_ws (replace_alts alts False u))) =
           trim (collapse_ws (replace_alts alts False u))"
proof -
  have "no_match alts False (replace_alts alts False u)"
    by (rule no_match_replace [OF assms]) simp
  then have "no_match alts False (trim (collapse_ws (replace_alts alts False u)))"
    by (intro no_match_trim [OF assms] no_match_collapse [OF assms])
  then show "replace_alts alts False (trim (collapse_ws (replace_alts alts False u))) =
      trim (collapse_ws (replace_alts alts False u))"
    by (rule no_match_fix)
  have "single_spaced (trim (collapse_ws (replace_alts alts False u)))"
    unfolding trim_def
    by (intro single_spaced_trimEnd single_spaced_dropWhile single_spaced_collapse)
  then show "collapse_ws (trim (collapse_ws (replace_alts alts False u))) =
      trim (collapse_ws (replace_alts alts False u))"
    by (rule single_spaced_fix)
qed

lemma council_qualifiers_single: "single_words council_qualifiers"
  by code_simp

lemma cleanCouncilName_idem: "cleanCouncilName (cleanCouncilName n) = cleanCouncilName n"
proof -
  let ?u = "toUpperCase n"
  let ?t = "trim (collapse_ws (replace_alts council_qualifiers False ?u))"
  have t: "cleanCouncilName n = ?t" by (simp add: cleanCouncilName_def)
  have up: "toUpperCase ?t = ?t"
    by (rule toUpperCase_normal_form) (rule toUpperCase_idem)
  have "cleanCouncilName ?t = trim (collapse_ws (replace_alts council_qualifiers False ?t))"
    by (simp only: cleanCouncilName_def up)
  also have "\<dots> = trim (collapse_ws ?t)"
    by (simp only: normal_form_fixed(1) [OF council_qualifiers_single])
  also have "\<dots> = trim ?t"
    by (simp only: normal_form_fixed(2) [OF council_qualifiers_single])
  also have "\<dots> = ?t" by (rule trim_idem)
  finally show ?thesis by (simp only: t)
qed

subsection \<open>Names without the word OF\<close>

lemma no_match_dropWhile_word:
  assumes "single_words alts"
  shows "no_match alts prev s \<Longrightarrow> no_match alts True (dropWhile is_word_char s)"
proof (induction s arbitrary: prev)
  case Nil
  show ?case by simp
next
  case (Cons c cs)
  from Cons.prems have rest: "no_match alts (is_word_char c) cs"
    by (simp only: no_match_step [OF assms])
  show ?case
  proof (cases "is_word_char c")
    case True
    with rest Cons.IH show ?thesis by simp
  next
    case False
    with rest have "no_match alts True (c # cs)"
      by (simp only: no_match_nonword [OF assms False])
    with False show ?thesis by simp
  qed
qed

lemma no_match_replace_other:
  assumes "single_words alts" and "single_words others"
  shows "no_match others p s \<Longrightarrow> q = p \<or> s = [] \<or> \<not> is_word_char (hd s) \<Longrightarrow>
         no_match others q (replace_alts alts p s)"
proof (induction "length s" arbitrary: s p q rule: less_induct)
  case less
  show ?case
  proof (cases s)
    case Nil
    then show ?thesis by simp
  next
    case (Cons c cs)
    from assms(2) have no_empty: "[] \<notin> set others"
      by (auto simp: single_words_def list_all_iff)
    from less.prems(1) have here: "p \<or> takeWhile is_word_char (c # cs) \<notin> set others"
      and rest: "no_match others (is_word_char c) cs"
      unfolding Cons by (simp_all only: no_match_step [OF assms(2)])
    show ?thesis
    proof (cases "\<not> p \<and> takeWhile is_word_char (c # cs) \<in> set alts")
      case True
      let ?r = "dropWhile is_word_char (c # cs)"
      have step: "replace_alts alts p s = replace_alts alts True ?r"
        unfolding Cons by (subst replace_step [OF assms(1)], rule if_P, rule True)
      from True assms(1) have "takeWhile is_word_char (c # cs) \<noteq> []"
        by (auto simp: single_words_def list_all_iff)
      then have "is_word_char c"
        by (auto split: if_splits)
      then have shorter: "length ?r < length s"
        unfolding Cons by (simp add: length_dropWhile_le less_Suc_eq_le)
      from less.prems(1) have clean: "no_match others True ?r"
        unfolding Cons by (rule no_match_dropWhile_word [OF assms(2)])
      have "?r = [] \<or> \<not> is_word_char (hd ?r)"
        using hd_dropWhile [of is_word_char "c # cs"] by blast
      then have "q = True \<or> ?r = [] \<or> \<not> is_word_char (hd ?r)"
        by blast
      with clean have "no_match others q (replace_alts alts True ?r)"
        by (rule less.hyps [OF shorter])
      then show ?thesis by (simp only: step)
    next
      case False
      let ?R = "replace_alts alts (is_word_char c) cs"
      have step: "replace_alts alts p s = c # ?R"
        unfolding Cons by (subst replace_step [OF assms(1)], rule if_not_P, rule False)
      have "length cs < length s"
        unfolding Cons by simp
      then have tail: "no_match others (is_word_char c) ?R"
        using rest by (rule less.hyps) simp
      have head: "q \<or> takeWhile is_word_char (c # ?R) \<notin> set others"
      proof (cases "is_word_char c")
        case nonword: False
        with no_empty show ?thesis by simp
      next
        case word: True
        with less.prems(2) have "q = p" unfolding Cons by simp
        moreover from word have "takeWhile is_word_char (c # ?R) = takeWhile is_word_char (c # cs)"
          by (simp add: takeWhile_replace [OF assms(1)])
        ultimately show ?thesis using here by (simp only:)
      qed
      from head tail have "no_match others q (c # ?R)"
        by (subst no_match_step [OF assms(2)]) blast
      then show ?thesis by (simp only: step)
    qed
  qed
qed

lemma no_match_after_prefix:
  assumes "single_words alts"
  shows "no_match alts prev (xs @ ys) \<Longrightarrow> xs \<noteq> [] \<Longrightarrow> no_match alts (is_word_char (last xs)) ys"
proof (induction xs arbitrary: prev)
  case Nil
  then show ?case by simp
next
  case (Cons x xs)
  from Cons.prems(1) have rest: "no_match alts (is_word_char x) (xs @ ys)"
    by (simp only: append_Cons no_match_step [OF assms])
  show ?case
  proof (cases "xs = []")
    case True
    with rest show ?thesis by simp
  next
    case False
    with Cons.IH [OF rest] show ?thesis by simp
  qed
qed

lemma word_chars_of: "is_word_char CHR ''O''" "is_word_char CHR ''F''"
  by (simp_all add: is_word_char_def is_upper_char_def)

lemma single_words_of: "single_words [''OF'']"
  by (simp add: single_words_def word_chars_of)

lemma of_word_found:
  assumes "pre \<noteq> []" and "\<not> is_word_char (last pre)"
    and "post = [] \<or> \<not> is_word_char (hd post)"
  shows "\<not> no_match [''OF''] prev (pre @ ''OF'' @ post)"
proof
  assume "no_match [''OF''] prev (pre @ ''OF'' @ post)"
  from no_match_after_prefix [OF single_words_of this assms(1)] assms(2)
  have "no_match [''OF''] False (''OF'' @ post)" by simp
  then have "takeWhile is_word_char (''OF'' @ post) \<notin> set [''OF'']"
    by (simp only: append_Cons no_match_step [OF single_words_of]) simp
  moreover from assms(3) have "takeWhile is_word_char post = []"
    by (cases post) auto
  then have "takeWhile is_word_char (''OF'' @ post) = ''OF''"
    by (simp add: word_chars_of)
  ultimately show False by simp
qed

lemma phrase_blocked:
  assumes "no_match [''OF''] prev s"
    and "alt_matches q s (pre @ ''OF'' @ post)"
    and "pre \<noteq> []" and "\<not> is_word_char (last pre)"
    and "post = [] \<or> \<not> is_word_char (hd post)"
  shows False
proof -
  let ?w = "pre @ ''OF'' @ post"
  from assms(2) obtain rest where s: "s = ?w @ rest"
    by (auto simp: alt_matches_def prefix_def)
  have "post @ rest = [] \<or> \<not> is_word_char (hd (post @ rest))"
  proof (cases "post = []")
    case True
    then have "is_word_char (last ?w)" by (simp add: word_chars_of)
    with assms(2) s have "word_boundary True rest"
      by (simp add: alt_matches_def)
    with True show ?thesis
      by (cases rest) (auto simp: word_boundary_def)
  next
    case False
    with assms(5) show ?thesis by simp
  qed
  from of_word_found [OF assms(3,4) this, of prev] assms(1) s show False
    by simp
qed

lemma gis_qualifiers_split:
  "gis_qualifiers =
     council_qualifiers @ [''THE COUNCIL OF THE'', ''MUNICIPALITY OF'', ''CITY OF'', ''SHIRE OF'']"
  by (simp add: gis_qualifiers_def council_qualifiers_def)

lemma find_append_none: "find P ys = None \<Longrightarrow> find P (xs @ ys) = find P xs"
  by (induction xs) auto

lemma blank_not_word: "\<not> is_word_char CHR '' ''"
  by (rule space_not_word) (simp add: is_space_def)

lemma phrases_blocked:
  assumes "no_match [''OF''] prev s"
  shows "find (alt_matches q s)
           [''THE COUNCIL OF THE'', ''MUNICIPALITY OF'', ''CITY OF'', ''SHIRE OF''] = None"
proof -
  have "\<not> alt_matches q s ''THE COUNCIL OF THE''"
    using phrase_blocked [OF assms, of q "''THE COUNCIL ''" "'' THE''"] blank_not_word
    by auto
  moreover have "\<not> alt_matches q s ''MUNICIPALITY OF''"
    using phrase_blocked [OF assms, of q "''MUNICIPALITY ''" "[]"] blank_not_word
    by auto
  moreover have "\<not> alt_matches q s ''CITY OF''"
    using phrase_blocked [OF assms, of q "''CITY ''" "[]"] blank_not_word
    by auto
  moreover have "\<not> alt_matches q s ''SHIRE OF''"
    using phrase_blocked [OF assms, of q "''SHIRE ''" "[]"] blank_not_word
    by auto
  ultimately show ?thesis by simp
qed

lemma match_at_without_of:
  assumes "no_match [''OF''] prev s"
  shows "match_at gis_qualifiers prev s = match_at council_qualifiers prev s"
  unfolding match_at_def gis_qualifiers_split
  by (simp only: find_append_none [OF phrases_blocked [OF assms]])

lemma replace_without_of:
  "no_match [''OF''] prev s \<Longrightarrow>
   replace_alts gis_qualifiers prev s = replace_alts council_qualifiers prev s"
proof (induction "length s" arbitrary: s prev rule: less_induct)
  case less
  show ?case
  proof (cases s)
    case Nil
    then show ?thesis by simp
  next
    case (Cons c cs)
    from less.prems have rest: "no_match [''OF''] (is_word_char c) cs"
      unfolding Cons by (simp only: no_match_step [OF single_words_of])
    have "length cs < length s" unfolding Cons by simp
    then have tail: "replace_alts gis_qualifiers (is_word_char c) cs =
        replace_alts council_qualifiers (is_word_char c) cs"
      using rest by (rule less.hyps)
    have same: "match_at gis_qualifiers prev (c # cs) = match_at council_qualifiers prev (c # cs)"
      using less.prems unfolding Cons by (rule match_at_without_of)
    show ?thesis
    proof (cases "\<not> prev \<and> takeWhile is_word_char (c # cs) \<in> set council_qualifiers")
      case True
      let ?t = "takeWhile is_word_char (c # cs)"
      let ?r = "dropWhile is_word_char (c # cs)"
      from True council_qualifiers_single have t: "?t \<noteq> []" "list_all is_word_char ?t"
        unfolding single_words_def list_all_iff by blast+
      from t(1) have "last ?t \<in> set ?t" by (rule last_in_set)
      with t(2) have last: "is_word_char (last ?t)"
        unfolding list_all_iff by blast
      have "c # cs = ?t @ ?r" by (simp only: takeWhile_dropWhile_id)
      then have drop: "drop (length ?t) (c # cs) = ?r"
        by (metis append_eq_conv_conj)
      from True have found: "match_at council_qualifiers prev (c # cs) = Some ?t"
        by (simp only: match_at_single_words [OF council_qualifiers_single] find_equal) simp
      from t(1) have "is_word_char c" by (auto split: if_splits)
      then have shorter: "length ?r < length s"
        unfolding Cons by (simp add: length_dropWhile_le less_Suc_eq_le)
      from less.prems have "no_match [''OF''] True ?r"
        unfolding Cons by (rule no_match_dropWhile_word [OF single_words_of])
      with shorter have next_one: "replace_alts gis_qualifiers True ?r =
          replace_alts council_qualifiers True ?r"
        by (rule less.hyps)
      have "replace_alts gis_qualifiers prev (c # cs) = replace_alts gis_qualifiers True ?r"
        using t(1) last drop by (simp only: replace_alts.simps same found option.case if_False)
      moreover have "replace_alts council_qualifiers prev (c # cs) =
          replace_alts council_qualifiers True ?r"
        using t(1) last drop by (simp only: replace_alts.simps found option.case if_False)
      ultimately show ?thesis unfolding Cons using next_one by (simp only:)
    next
      case False
      then have none: "match_at council_qualifiers prev (c # cs) = None"
        by (simp only: match_at_single_words [OF council_qualifiers_single] find_equal) auto
      have "replace_alts gis_qualifiers prev (c # cs) =
          c # replace_alts gis_qualifiers (is_word_char c) cs"
        by (simp only: replace_alts.simps same none option.case)
      moreover have "replace_alts council_qualifiers prev (c # cs) =
          c # replace_alts council_qualifiers (is_word_char c) cs"
        by (simp only: replace_alts.simps none option.case)
      ultimately show ?thesis unfolding Cons using tail by (simp only:)
    qed
  qed
qed

lemma cleanGisName_idem_without_of:
  assumes "\<not> has_word ''OF'' (toUpperCase x)"
  shows "cleanGisName (cleanGisName x) = cleanGisName x"
proof -
  let ?u = "trim (toUpperCase x)"
  let ?t = "trim (collapse_ws (replace_alts council_qualifiers False ?u))"
  from assms have "no_match [''OF''] False (toUpperCase x)"
    by (simp add: has_word_def)
  then have u: "no_match [''OF''] False ?u"
    by (rule no_match_trim [OF single_words_of])
  then have first: "cleanGisName x = ?t"
    by (simp only: cleanGisName_def normalizedGisName_def replace_without_of)
  have "no_match [''OF''] False (replace_alts council_qualifiers False ?u)"
    using u by (rule no_match_replace_other [OF council_qualifiers_single single_words_of]) simp
  then have t: "no_match [''OF''] False ?t"
    by (intro no_match_trim [OF single_words_of] no_match_collapse [OF single_words_of])
  have "toUpperCase ?u = ?u"
  proof -
    have "upper_char c = c" if "c \<in> set ?u" for c
    proof -
      from that set_trim have "c \<in> set (toUpperCase x)" by blast
      then show ?thesis by (auto simp: toUpperCase_def upper_char_idem)
    qed
    then show ?thesis by (simp add: toUpperCase_fixed)
  qed
  then have up: "toUpperCase ?t = ?t"
    by (rule toUpperCase_normal_form)
  have "cleanGisName ?t = trim (collapse_ws (replace_alts gis_qualifiers False (trim ?t)))"
    by (simp only: cleanGisName_def normalizedGisName_def up)
  also have "\<dots> = trim (collapse_ws (replace_alts gis_qualifiers False ?t))"
    by (simp only: trim_idem)
  also have "\<dots> = trim (collapse_ws (replace_alts council_qualifiers False ?t))"
    by (simp only: replace_without_of [OF t])
  also have "\<dots> = trim (collapse_ws ?t)"
    by (simp only: normal_form_fixed(1) [OF council_qualifiers_single])
  also have "\<dots> = trim ?t"
    by (simp only: normal_form_fixed(2) [OF council_qualifiers_single])
  also have "\<dots> = ?t" by (rule trim_idem)
  finally show ?thesis by (simp only: first)
qed

section \<open>Candidates made up of qualifier words\<close>

lemma find_append_some: "find P xs = Some x \<Longrightarrow> find P (xs @ ys) = Some x"
  by (induction xs) (auto split: if_splits)

lemma gis_alternatives_start: "W \<in> set gis_qualifiers \<Longrightarrow> W \<noteq> [] \<and> is_word_char (hd W)"
  by (auto simp: gis_qualifiers_def is_word_char_def is_upper_char_def)

lemma gis_no_match_at_nonword:
  assumes "\<not> is_word_char c"
  shows "match_at gis_qualifiers prev (c # cs) = None"
proof -
  have "\<not> alt_matches prev (c # cs) W" if "W \<in> set gis_qualifiers" for W
  proof -
    from gis_alternatives_start [OF that] assms have "\<not> prefix W (c # cs)"
      by (cases W) auto
    then show ?thesis by (simp add: alt_matches_def)
  qed
  then have "find (alt_matches prev (c # cs)) gis_qualifiers = None"
    by (auto simp: find_None_iff)
  then show ?thesis by (simp add: match_at_def)
qed

lemma gis_match_single_word:
  assumes "takeWhile is_word_char s \<in> set council_qualifiers"
  shows "match_at gis_qualifiers False s = Some (takeWhile is_word_char s)"
proof -
  let ?t = "takeWhile is_word_char s"
  from assms council_qualifiers_single have "?t \<noteq> []"
    by (auto simp: single_words_def list_all_iff)
  then have boundary: "word_boundary False s"
    by (cases s) (auto simp: word_boundary_def split: if_splits)
  from assms have "match_at council_qualifiers False s = Some ?t"
    by (simp only: match_at_single_words [OF council_qualifiers_single] find_equal) simp
  with boundary have "find (alt_matches False s) council_qualifiers = Some ?t"
    by (simp add: match_at_def)
  then have "find (alt_matches False s) gis_qualifiers = Some ?t"
    unfolding gis_qualifiers_split by (rule find_append_some)
  with boundary show ?thesis by (simp add: match_at_def)
qed

lemma qualifier_text_dropWhile_word:
  "qualifier_text prev s \<Longrightarrow> qualifier_text True (dropWhile is_word_char s)"
proof (induction s arbitrary: prev)
  case Nil
  show ?case by simp
next
  case (Cons c cs)
  show ?case
  proof (cases "is_word_char c")
    case True
    with Cons.prems have "qualifier_text True cs" by simp
    then have "qualifier_text True (dropWhile is_word_char cs)" by (rule Cons.IH)
    with True show ?thesis by simp
  next
    case False
    with Cons.prems show ?thesis by simp
  qed
qed

lemma qualifier_text_removed:
  "qualifier_text prev s \<Longrightarrow> \<not> prev \<or> s = [] \<or> \<not> is_word_char (hd s) \<Longrightarrow>
   list_all is_space (replace_alts gis_qualifiers prev s)"
proof (induction "length s" arbitrary: s prev rule: less_induct)
  case less
  show ?case
  proof (cases s)
    case Nil
    then show ?thesis by simp
  next
    case (Cons c cs)
    show ?thesis
    proof (cases "is_word_char c")
      case True
      let ?t = "takeWhile is_word_char (c # cs)"
      let ?r = "dropWhile is_word_char (c # cs)"
      from True less.prems(2) have start: "\<not> prev" unfolding Cons by simp
      with True less.prems(1) have word: "?t \<in> set council_qualifiers"
        unfolding Cons by simp
      from start have found: "match_at gis_qualifiers prev (c # cs) = Some ?t"
        using gis_match_single_word [OF word] by simp
      from word council_qualifiers_single have t: "?t \<noteq> []" "list_all is_word_char ?t"
        unfolding single_words_def list_all_iff by blast+
      from t(1) have "last ?t \<in> set ?t" by (rule last_in_set)
      with t(2) have last: "is_word_char (last ?t)"
        unfolding list_all_iff by blast
      have "c # cs = ?t @ ?r" by (simp only: takeWhile_dropWhile_id)
      then have drop: "drop (length ?t) (c # cs) = ?r"
        by (metis append_eq_conv_conj)
      have step: "replace_alts gis_qualifiers prev (c # cs) = replace_alts gis_qualifiers True ?r"
        using t(1) last drop by (simp only: replace_alts.simps found option.case if_False)
      from True have shorter: "length ?r < length s"
        unfolding Cons by (simp add: length_dropWhile_le less_Suc_eq_le)
      from less.prems(1) have remaining: "qualifier_text True ?r"
        unfolding Cons by (rule qualifier_text_dropWhile_word)
      have "\<not> True \<or> ?r = [] \<or> \<not> is_word_char (hd ?r)"
        using hd_dropWhile [of is_word_char "c # cs"] by blast
      with remaining have "list_all is_space (replace_alts gis_qualifiers True ?r)"
        by (rule less.hyps [OF shorter])
      then show ?thesis unfolding Cons by (simp only: step)
    next
      case False
      with less.prems(1) have space: "is_space c" and remaining: "qualifier_text False cs"
        unfolding Cons by simp_all
      have step: "replace_alts gis_qualifiers prev (c # cs) =
          c # replace_alts gis_qualifiers (is_word_char c) cs"
        by (simp only: replace_alts.simps gis_no_match_at_nonword [OF False] option.case)
      have "length cs < length s" unfolding Cons by simp
      then have "list_all is_space (replace_alts gis_qualifiers False cs)"
        using remaining by (rule less.hyps) simp
      with space False show ?thesis unfolding Cons by (simp only: step) simp
    qed
  qed
qed

lemma blank_text_collapses:
  assumes "list_all is_space s"
  shows "trim (collapse_ws s) = []"
proof (cases s)
  case Nil
  then show ?thesis by (simp add: trim_def)
next
  case (Cons c cs)
  with assms have space: "is_space c" and "list_all is_space cs"
    by simp_all
  then have "dropWhile is_space cs = []"
    by (simp add: list_all_iff)
  then have "collapse_ws (c # cs) = '' ''"
    using space by (simp only: collapse_ws.simps if_True)
  then show ?thesis
    unfolding Cons by (simp add: trim_def is_space_def)
qed

lemma qualifier_text_dropWhile_space:
  "qualifier_text False s \<Longrightarrow> qualifier_text False (dropWhile is_space s)"
  by (induction s) (auto dest: space_not_word)

lemma qualifier_text_trimEnd: "qualifier_text prev s \<Longrightarrow> qualifier_text prev (trimEnd s)"
proof (induction s arbitrary: prev)
  case Nil
  show ?case by simp
next
  case (Cons c cs)
  show ?case
  proof (cases "is_space c \<and> trimEnd cs = []")
    case True
    then show ?thesis by simp
  next
    case False
    have "takeWhile is_word_char (c # trimEnd cs) = takeWhile is_word_char (c # cs)"
      by (simp add: takeWhile_trimEnd)
    with Cons.prems Cons.IH [of "is_word_char c"] False show ?thesis
      by (auto simp del: takeWhile.simps)
  qed
qed

lemma qualifier_only_normal_form:
  assumes "only_qualifier_words g"
  shows "cleanGisName g = []"
proof -
  from assms have "qualifier_text False (normalizedGisName g)"
    unfolding only_qualifier_words_def normalizedGisName_def trim_def
    by (intro qualifier_text_trimEnd qualifier_text_dropWhile_space)
  then have "list_all is_space (replace_alts gis_qualifiers False (normalizedGisName g))"
    by (rule qualifier_text_removed) simp
  then show ?thesis
    unfolding cleanGisName_def by (rule blank_text_collapses)
qed

section \<open>Two passes of the normalisation\<close>

lemma word_bounded_none:
  assumes "word_bounded alts" and "prev \<or> \<not> is_word_char c"
  shows "match_at alts prev (c # cs) = None"
proof (cases "is_word_char c")
  case True
  with assms(2) have "\<not> word_boundary prev (c # cs)"
    by (simp add: word_boundary_def)
  then show ?thesis by (simp add: match_at_def)
next
  case False
  have "\<not> alt_matches prev (c # cs) W" if "W \<in> set alts" for W
  proof -
    from assms(1) that have "W \<noteq> []" "is_word_char (hd W)"
      by (auto simp: word_bounded_def list_all_iff)
    with False have "\<not> prefix W (c # cs)"
      by (cases W) auto
    then show ?thesis by (simp add: alt_matches_def)
  qed
  then have "find (alt_matches prev (c # cs)) alts = None"
    by (auto simp: find_None_iff)
  then show ?thesis by (simp add: match_at_def)
qed

lemma word_bounded_some:
  assumes "word_bounded alts" and "match_at alts prev s = Some W"
  shows "W \<in> set alts" and "W \<noteq> []" and "is_word_char (last W)"
    and "\<exists>rest. s = W @ rest \<and> (rest = [] \<or> \<not> is_word_char (hd rest))"
proof -
  from assms(2) have found: "find (alt_matches prev s) alts = Some W"
    by (simp add: match_at_def split: if_splits)
  then have matches: "alt_matches prev s W" and member: "W \<in> set alts"
    by (auto simp: find_Some_iff)
  from member show "W \<in> set alts" .
  from assms(1) member show ne: "W \<noteq> []" and last: "is_word_char (last W)"
    by (auto simp: word_bounded_def list_all_iff)
  from matches obtain rest where s: "s = W @ rest"
    by (auto simp: alt_matches_def prefix_def)
  with matches ne last have "word_boundary True rest"
    by (simp add: alt_matches_def)
  then have "rest = [] \<or> \<not> is_word_char (hd rest)"
    by (cases rest) (auto simp: word_boundary_def)
  with s show "\<exists>rest. s = W @ rest \<and> (rest = [] \<or> \<not> is_word_char (hd rest))"
    by blast
qed

lemma replace_after_word:
  assumes "word_bounded alts"
  shows "replace_alts alts True (c # cs) = c # replace_alts alts (is_word_char c) cs"
proof -
  have "match_at alts True (c # cs) = None"
    by (rule word_bounded_none [OF assms]) simp
  then show ?thesis by simp
qed

lemma takeWhile_replace_bounded:
  assumes "word_bounded alts"
  shows "takeWhile is_word_char (replace_alts alts True s) = takeWhile is_word_char s"
proof (induction s)
  case Nil
  show ?case by simp
next
  case (Cons c cs)
  then show ?case
    by (simp add: replace_after_word [OF assms] del: replace_alts.simps(2))
qed

lemma no_match_replace_bounded:
  assumes "word_bounded alts" and "single_words others"
  shows "no_match others p s \<Longrightarrow> q = p \<or> s = [] \<or> \<not> is_word_char (hd s) \<Longrightarrow>
         no_match others q (replace_alts alts p s)"
proof (induction "length s" arbitrary: s p q rule: less_induct)
  case less
  show ?case
  proof (cases s)
    case Nil
    then show ?thesis by simp
  next
    case (Cons c cs)
    from assms(2) have no_empty: "[] \<notin> set others"
      by (auto simp: single_words_def list_all_iff)
    from less.prems(1) have here: "p \<or> takeWhile is_word_char (c # cs) \<notin> set others"
      and rest: "no_match others (is_word_char c) cs"
      unfolding Cons by (simp_all only: no_match_step [OF assms(2)])
    show ?thesis
    proof (cases "match_at alts p (c # cs)")
      case (Some W)
      from word_bounded_some [OF assms(1) Some] obtain r where
        W: "W \<noteq> []" "is_word_char (last W)" and r: "c # cs = W @ r"
        and edge: "r = [] \<or> \<not> is_word_char (hd r)"
        by blast
      from r have drop: "drop (length W) (c # cs) = r"
        by (metis append_eq_conv_conj)
      have step: "replace_alts alts p s = replace_alts alts True r"
        unfolding Cons using W drop by (simp only: replace_alts.simps Some option.case if_False)
      from r W(1) have shorter: "length r < length s"
        unfolding Cons by (metis length_append length_greater_0_conv less_add_same_cancel2)
      from less.prems(1) have "no_match others p (W @ r)"
        unfolding Cons r .
      from no_match_after_prefix [OF assms(2) this W(1)] W(2)
      have clean: "no_match others True r" by simp
      from edge have "q = True \<or> r = [] \<or> \<not> is_word_char (hd r)" by blast
      with clean have "no_match others q (replace_alts alts True r)"
        by (rule less.hyps [OF shorter])
      then show ?thesis by (simp only: step)
    next
      case None
      let ?R = "replace_alts alts (is_word_char c) cs"
      have step: "replace_alts alts p s = c # ?R"
        unfolding Cons by (simp only: replace_alts.simps None option.case)
      have "length cs < length s"
        unfolding Cons by simp
      then have tail: "no_match others (is_word_char c) ?R"
        using rest by (rule less.hyps) simp
      have head: "q \<or> takeWhile is_word_char (c # ?R) \<notin> set others"
      proof (cases "is_word_char c")
        case nonword: False
        with no_empty show ?thesis by simp
      next
        case word: True
        with less.prems(2) have "q = p" unfolding Cons by simp
        moreover from word have "takeWhile is_word_char (c # ?R) = takeWhile is_word_char (c # cs)"
          by (simp add: takeWhile_replace_bounded [OF assms(1)])
        ultimately show ?thesis using here by (simp only:)
      qed
      from head tail have "no_match others q (c # ?R)"
        by (subst no_match_step [OF assms(2)]) blast
      then show ?thesis by (simp only: step)
    qed
  qed
qed

lemma gis_word_bounded: "word_bounded gis_qualifiers"
  by (simp add: word_bounded_def gis_qualifiers_def is_word_char_def is_upper_char_def)

subsection \<open>What the first pass leaves\<close>

lemma no_single_word_left:
  "q = p \<or> s = [] \<or> \<not> is_word_char (hd s) \<Longrightarrow>
   no_match council_qualifiers q (replace_alts gis_qualifiers p s)"
proof (induction "length s" arbitrary: s p q rule: less_induct)
  case less
  note single = council_qualifiers_single
  show ?case
  proof (cases s)
    case Nil
    then show ?thesis by simp
  next
    case (Cons c cs)
    from single have no_empty: "[] \<notin> set council_qualifiers"
      by (auto simp: single_words_def list_all_iff)
    show ?thesis
    proof (cases "match_at gis_qualifiers p (c # cs)")
      case (Some W)
      from word_bounded_some [OF gis_word_bounded Some] obtain r where
        W: "W \<noteq> []" "is_word_char (last W)" and r: "c # cs = W @ r"
        and edge: "r = [] \<or> \<not> is_word_char (hd r)"
        by blast
      from r have drop: "drop (length W) (c # cs) = r"
        by (metis append_eq_conv_conj)
      have step: "replace_alts gis_qualifiers p s = replace_alts gis_qualifiers True r"
        unfolding Cons using W drop by (simp only: replace_alts.simps Some option.case if_False)
      from r W(1) have shorter: "length r < length s"
        unfolding Cons by (metis length_append length_greater_0_conv less_add_same_cancel2)
      from edge have "q = True \<or> r = [] \<or> \<not> is_word_char (hd r)" by blast
      then have "no_match council_qualifiers q (replace_alts gis_qualifiers True r)"
        by (rule less.hyps [OF shorter])
      then show ?thesis by (simp only: step)
    next
      case None
      let ?R = "replace_alts gis_qualifiers (is_word_char c) cs"
      have step: "replace_alts gis_qualifiers p s = c # ?R"
        unfolding Cons by (simp only: replace_alts.simps None option.case)
      have "length cs < length s"
        unfolding Cons by simp
      then have tail: "no_match council_qualifiers (is_word_char c) ?R"
        by (rule less.hyps) simp
      have head: "q \<or> takeWhile is_word_char (c # ?R) \<notin> set council_qualifiers"
      proof (cases "is_word_char c")
        case nonword: False
        with no_empty show ?thesis by simp
      next
        case word: True
        with less.prems have same: "q = p" unfolding Cons by simp
        from word have run: "takeWhile is_word_char (c # ?R) = takeWhile is_word_char (c # cs)"
          by (simp add: takeWhile_replace_bounded [OF gis_word_bounded])
        show ?thesis
        proof (cases p)
          case True
          with same show ?thesis by simp
        next
          case False
          have "takeWhile is_word_char (c # cs) \<notin> set council_qualifiers"
          proof
            assume "takeWhile is_word_char (c # cs) \<in> set council_qualifiers"
            from gis_match_single_word [OF this] None False show False by simp
          qed
          then show ?thesis by (simp only: run) simp
        qed
      qed
      from head tail have "no_match council_qualifiers q (c # ?R)"
        by (subst no_match_step [OF single]) blast
      then show ?thesis by (simp only: step)
    qed
  qed
qed

lemma normalized_upper: "toUpperCase (normalizedGisName x) = normalizedGisName x"
proof -
  have "upper_char c = c" if "c \<in> set (normalizedGisName x)" for c
  proof -
    from that set_trim have "c \<in> set (toUpperCase x)"
      unfolding normalizedGisName_def by blast
    then show ?thesis by (auto simp: toUpperCase_def upper_char_idem)
  qed
  then show ?thesis by (simp add: toUpperCase_fixed)
qed

lemma gis_normal_form:
  shows "toUpperCase (cleanGisName x) = cleanGisName x"
    and "trim (cleanGisName x) = cleanGisName x"
    and "collapse_ws (cleanGisName x) = cleanGisName x"
    and "no_match council_qualifiers False (cleanGisName x)"
proof -
  show "toUpperCase (cleanGisName x) = cleanGisName x"
    unfolding cleanGisName_def by (rule toUpperCase_normal_form) (rule normalized_upper)
  show "trim (cleanGisName x) = cleanGisName x"
    unfolding cleanGisName_def by (rule trim_idem)
  have "single_spaced (cleanGisName x)"
    unfolding cleanGisName_def trim_def
    by (intro single_spaced_trimEnd single_spaced_dropWhile single_spaced_collapse)
  then show "collapse_ws (cleanGisName x) = cleanGisName x"
    by (rule single_spaced_fix)
  have "no_match council_qualifiers False
      (replace_alts gis_qualifiers False (normalizedGisName x))"
    by (rule no_single_word_left) simp
  then show "no_match council_qualifiers False (cleanGisName x)"
    unfolding cleanGisName_def
    by (intro no_match_trim [OF council_qualifiers_single]
        no_match_collapse [OF council_qualifiers_single])
qed

subsection \<open>What the second pass can remove\<close>

lemma single_alternatives_blocked:
  assumes "no_match council_qualifiers prev s" and "W \<in> set council_qualifiers"
    and "word_boundary prev s"
  shows "\<not> alt_matches prev s W"
proof (cases s)
  case Nil
  from assms(2) council_qualifiers_single have "W \<noteq> []"
    by (auto simp: single_words_def list_all_iff)
  with Nil show ?thesis by (simp add: alt_matches_def)
next
  case (Cons c cs)
  with assms(1) have "match_at council_qualifiers prev s = None" by simp
  with assms(3) have "find (alt_matches prev s) council_qualifiers = None"
    by (simp add: match_at_def)
  with assms(2) show ?thesis by (auto simp: find_None_iff)
qed

lemma longer_phrase_blocked:
  assumes "no_match council_qualifiers prev s" and "word_boundary prev s"
    and "W \<in> set council_qualifiers"
  shows "\<not> alt_matches prev s (W @ '' OF'')"
proof
  assume "alt_matches prev s (W @ '' OF'')"
  then obtain rest where s: "s = W @ '' OF'' @ rest"
    by (auto simp: alt_matches_def prefix_def)
  from assms(3) council_qualifiers_single have W: "W \<noteq> []" "list_all is_word_char W"
    by (auto simp: single_words_def list_all_iff)
  then have "is_word_char (last W)"
    by (auto simp: list_all_iff)
  moreover from s have "prefix W s" by simp
  moreover from s have "drop (length W) s = '' OF'' @ rest" by simp
  ultimately have "alt_matches prev s W"
    using W(1) blank_not_word by (simp add: alt_matches_def word_boundary_def)
  with single_alternatives_blocked [OF assms(1,3,2)] show False by blast
qed

lemma council_phrase_blocked:
  assumes "no_match council_qualifiers prev s"
  shows "\<not> alt_matches prev s ''THE COUNCIL OF THE''"
proof
  assume "alt_matches prev s ''THE COUNCIL OF THE''"
  then obtain rest where "s = ''THE COUNCIL OF THE'' @ rest"
    by (auto simp: alt_matches_def prefix_def)
  then have s: "s = ''THE '' @ (''COUNCIL'' @ '' OF THE'' @ rest)" by simp
  from assms have "no_match council_qualifiers prev (''THE '' @ (''COUNCIL'' @ '' OF THE'' @ rest))"
    unfolding s .
  from no_match_after_prefix [OF council_qualifiers_single this] blank_not_word
  have "no_match council_qualifiers False (''COUNCIL'' @ '' OF THE'' @ rest)" by simp
  then have "takeWhile is_word_char (''COUNCIL'' @ '' OF THE'' @ rest) \<notin> set council_qualifiers"
    by (simp only: append_Cons no_match_step [OF council_qualifiers_single]) simp
  moreover have "takeWhile is_word_char (''COUNCIL'' @ '' OF THE'' @ rest) = ''COUNCIL''"
    using blank_not_word by (simp add: is_word_char_def is_upper_char_def)
  ultimately show False by (simp add: council_qualifiers_def)
qed

lemma match_at_second_pass:
  assumes "no_match council_qualifiers prev s"
  shows "match_at gis_qualifiers prev s = match_at [''MUNICIPALITY OF''] prev s"
proof (cases "word_boundary prev s")
  case False
  then show ?thesis by (simp add: match_at_def)
next
  case True
  have single: "\<not> alt_matches prev s W" if "W \<in> set council_qualifiers" for W
    using single_alternatives_blocked [OF assms that True] .
  have "\<not> alt_matches prev s ''CITY OF''"
    using longer_phrase_blocked [OF assms True, of "''CITY''"]
    by (simp add: council_qualifiers_def)
  moreover have "\<not> alt_matches prev s ''SHIRE OF''"
    using longer_phrase_blocked [OF assms True, of "''SHIRE''"]
    by (simp add: council_qualifiers_def)
  moreover have "\<not> alt_matches prev s ''THE COUNCIL OF THE''"
    by (rule council_phrase_blocked [OF assms])
  moreover have "\<not> alt_matches prev s ''CITY''" "\<not> alt_matches prev s ''SHIRE''"
    "\<not> alt_matches prev s ''REGIONAL''" "\<not> alt_matches prev s ''MUNICIPAL''"
    "\<not> alt_matches prev s ''COUNCIL''"
    by (rule single, simp add: council_qualifiers_def)+
  ultimately have "find (alt_matches prev s) gis_qualifiers =
      find (alt_matches prev s) [''MUNICIPALITY OF'']"
    by (simp add: gis_qualifiers_def)
  then show ?thesis by (simp add: match_at_def)
qed

lemma replace_second_pass:
  "no_match council_qualifiers prev s \<Longrightarrow>
   replace_alts gis_qualifiers prev s = replace_alts [''MUNICIPALITY OF''] prev s"
proof (induction "length s" arbitrary: s prev rule: less_induct)
  case less
  show ?case
  proof (cases s)
    case Nil
    then show ?thesis by simp
  next
    case (Cons c cs)
    have same: "match_at gis_qualifiers prev (c # cs) = match_at [''MUNICIPALITY OF''] prev (c # cs)"
      using less.prems unfolding Cons by (rule match_at_second_pass)
    from less.prems have rest: "no_match council_qualifiers (is_word_char c) cs"
      unfolding Cons by simp
    have "length cs < length s" unfolding Cons by simp
    then have tail: "replace_alts gis_qualifiers (is_word_char c) cs =
        replace_alts [''MUNICIPALITY OF''] (is_word_char c) cs"
      using rest by (rule less.hyps)
    show ?thesis
    proof (cases "match_at gis_qualifiers prev (c # cs)")
      case None
      with same have none: "match_at [''MUNICIPALITY OF''] prev (c # cs) = None" by simp
      have "replace_alts gis_qualifiers prev (c # cs) =
          c # replace_alts gis_qualifiers (is_word_char c) cs"
        by (simp only: replace_alts.simps None option.case)
      moreover have "replace_alts [''MUNICIPALITY OF''] prev (c # cs) =
          c # replace_alts [''MUNICIPALITY OF''] (is_word_char c) cs"
        by (simp only: replace_alts.simps none option.case)
      ultimately show ?thesis unfolding Cons using tail by (simp only:)
    next
      case (Some W)
      with same have some: "match_at [''MUNICIPALITY OF''] prev (c # cs) = Some W" by simp
      from word_bounded_some [OF gis_word_bounded Some] obtain r where
        W: "W \<noteq> []" "is_word_char (last W)" and r: "c # cs = W @ r"
        by blast
      from r have drop: "drop (length W) (c # cs) = r"
        by (metis append_eq_conv_conj)
      from r W(1) have shorter: "length r < length s"
        unfolding Cons by (metis length_append length_greater_0_conv less_add_same_cancel2)
      from less.prems have "no_match council_qualifiers prev (W @ r)"
        unfolding Cons r .
      from no_match_after_prefix [OF council_qualifiers_single this W(1)] W(2)
      have "no_match council_qualifiers True r" by simp
      with shorter have next_one: "replace_alts gis_qualifiers True r =
          replace_alts [''MUNICIPALITY OF''] True r"
        by (rule less.hyps)
      have "replace_alts gis_qualifiers prev (c # cs) = replace_alts gis_qualifiers True r"
        using W drop by (simp only: replace_alts.simps Some option.case if_False)
      moreover have "replace_alts [''MUNICIPALITY OF''] prev (c # cs) =
          replace_alts [''MUNICIPALITY OF''] True r"
        using W drop by (simp only: replace_alts.simps some option.case if_False)
      ultimately show ?thesis unfolding Cons using next_one by (simp only:)
    qed
  qed
qed

subsection \<open>Lengths\<close>

lemma length_replace_alts: "length (replace_alts alts prev s) \<le> length s"
proof (induction alts prev s rule: replace_alts.induct)
  case (1 alts prev)
  show ?case by simp
next
  case (2 alts prev c cs)
  show ?case
  proof (cases "match_at alts prev (c # cs)")
    case None
    with 2(1) show ?thesis by simp
  next
    case (Some p)
    show ?thesis
    proof (cases "p = []")
      case True
      with Some 2(2) show ?thesis by simp
    next
      case False
      with Some 2(3) have "length (replace_alts alts prev (c # cs)) \<le>
          length (drop (length p) (c # cs))"
        by (simp del: drop_Suc_Cons)
      then show ?thesis by simp
    qed
  qed
qed

lemma length_replace_match:
  assumes "[] \<notin> set alts"
  shows "\<not> no_match alts prev s \<Longrightarrow> length (replace_alts alts prev s) < length s"
proof (induction s arbitrary: prev)
  case Nil
  then show ?case by simp
next
  case (Cons c cs)
  show ?case
  proof (cases "match_at alts prev (c # cs)")
    case None
    with Cons.prems have "\<not> no_match alts (is_word_char c) cs" by simp
    then have "length (replace_alts alts (is_word_char c) cs) < length cs"
      by (rule Cons.IH)
    with None show ?thesis by simp
  next
    case (Some p)
    then have "find (alt_matches prev (c # cs)) alts = Some p"
      by (simp add: match_at_def split: if_splits)
    then have "p \<in> set alts" by (auto simp: find_Some_iff)
    with assms have ne: "p \<noteq> []" by auto
    with Some have "replace_alts alts prev (c # cs) =
        replace_alts alts (is_word_char (last p)) (drop (length p) (c # cs))"
      by (simp del: drop_Suc_Cons)
    moreover have "length (replace_alts alts (is_word_char (last p)) (drop (length p) (c # cs)))
        \<le> length (drop (length p) (c # cs))"
      by (rule length_replace_alts)
    moreover from ne have "length (drop (length p) (c # cs)) < length (c # cs)"
      by simp
    ultimately show ?thesis by simp
  qed
qed

lemma length_collapse_ws: "length (collapse_ws s) \<le> length s"
proof (induction s rule: collapse_ws.induct)
  case 1
  show ?case by simp
next
  case (2 c cs)
  show ?case
  proof (cases "is_space c")
    case True
    from "2.IH"(1) [OF True] length_dropWhile_le [of is_space cs]
    have "length (collapse_ws (dropWhile is_space cs)) \<le> length cs" by simp
    with True show ?thesis by simp
  next
    case False
    with "2.IH"(2) show ?thesis by simp
  qed
qed

lemma length_trimEnd: "length (trimEnd s) \<le> length s"
  by (induction s) auto

lemma length_trim: "length (trim s) \<le> length s"
  using length_trimEnd [of "dropWhile is_space s"] length_dropWhile_le [of is_space s]
  by (simp add: trim_def)

subsection \<open>The second pass\<close>

lemma second_pass:
  "cleanGisName (cleanGisName x) =
     trim (collapse_ws (replace_alts [''MUNICIPALITY OF''] False (cleanGisName x)))"
proof -
  let ?t = "cleanGisName x"
  have "cleanGisName ?t = trim (collapse_ws (replace_alts gis_qualifiers False (trim (toUpperCase ?t))))"
    by (simp only: cleanGisName_def [of ?t] normalizedGisName_def)
  also have "\<dots> = trim (collapse_ws (replace_alts gis_qualifiers False ?t))"
    by (simp only: gis_normal_form(1,2))
  also have "\<dots> = trim (collapse_ws (replace_alts [''MUNICIPALITY OF''] False ?t))"
    by (simp only: replace_second_pass [OF gis_normal_form(4)])
  finally show ?thesis .
qed

lemma cleanGisName_idem_iff:
  "cleanGisName (cleanGisName x) = cleanGisName x \<longleftrightarrow>
   \<not> has_phrase ''MUNICIPALITY OF'' (cleanGisName x)"
proof (cases "no_match [''MUNICIPALITY OF''] False (cleanGisName x)")
  case True
  then have "replace_alts [''MUNICIPALITY OF''] False (cleanGisName x) = cleanGisName x"
    by (rule no_match_fix)
  then have "cleanGisName (cleanGisName x) = cleanGisName x"
    by (simp only: second_pass gis_normal_form(2,3))
  with True show ?thesis by (simp add: has_phrase_def)
next
  case False
  let ?r = "replace_alts [''MUNICIPALITY OF''] False (cleanGisName x)"
  from False have "length ?r < length (cleanGisName x)"
    by (intro length_replace_match) simp
  moreover have "length (trim (collapse_ws ?r)) \<le> length ?r"
    using length_trim [of "collapse_ws ?r"] length_collapse_ws [of ?r] by simp
  ultimately have "length (cleanGisName (cleanGisName x)) < length (cleanGisName x)"
    by (simp only: second_pass)
  then have "cleanGisName (cleanGisName x) \<noteq> cleanGisName x" by auto
  with False show ?thesis by (simp add: has_phrase_def)
qed

subsection \<open>Names without one of the two words\<close>

lemma single_words_municipality: "single_words [''MUNICIPALITY'']"
  by (simp add: single_words_def is_word_char_def is_upper_char_def)

lemma word_survives_first_pass:
  assumes "single_words [w]" and "\<not> has_word w (toUpperCase x)"
  shows "no_match [w] False (cleanGisName x)"
proof -
  from assms(2) have "no_match [w] False (toUpperCase x)"
    by (simp add: has_word_def)
  then have "no_match [w] False (normalizedGisName x)"
    unfolding normalizedGisName_def by (rule no_match_trim [OF assms(1)])
  then have "no_match [w] False (replace_alts gis_qualifiers False (normalizedGisName x))"
    by (rule no_match_replace_bounded [OF gis_word_bounded assms(1)]) simp
  then show ?thesis
    unfolding cleanGisName_def
    by (intro no_match_trim [OF assms(1)] no_match_collapse [OF assms(1)])
qed

lemma phrase_needs_of:
  "no_match [''OF''] prev s \<Longrightarrow> no_match [''MUNICIPALITY OF''] prev s"
proof (induction s arbitrary: prev)
  case Nil
  show ?case by simp
next
  case (Cons c cs)
  from Cons.prems have "no_match [''OF''] (is_word_char c) cs"
    by (simp only: no_match_step [OF single_words_of])
  then have rest: "no_match [''MUNICIPALITY OF''] (is_word_char c) cs"
    by (rule Cons.IH)
  have "\<not> alt_matches prev (c # cs) ''MUNICIPALITY OF''"
    using phrase_blocked [OF Cons.prems, of prev "''MUNICIPALITY ''" "[]"] blank_not_word
    by auto
  then have "match_at [''MUNICIPALITY OF''] prev (c # cs) = None"
    by (simp add: match_at_def)
  with rest show ?case by simp
qed

lemma phrase_needs_municipality:
  "no_match [''MUNICIPALITY''] prev s \<Longrightarrow> no_match [''MUNICIPALITY OF''] prev s"
proof (induction s arbitrary: prev)
  case Nil
  show ?case by simp
next
  case (Cons c cs)
  note single = single_words_municipality
  from Cons.prems have here: "prev \<or> takeWhile is_word_char (c # cs) \<notin> set [''MUNICIPALITY'']"
    and "no_match [''MUNICIPALITY''] (is_word_char c) cs"
    by (simp_all only: no_match_step [OF single])
  then have rest: "no_match [''MUNICIPALITY OF''] (is_word_char c) cs"
    using Cons.IH by blast
  have "match_at [''MUNICIPALITY OF''] prev (c # cs) = None"
  proof (cases "word_boundary prev (c # cs) \<and> alt_matches prev (c # cs) ''MUNICIPALITY OF''")
    case False
    then show ?thesis by (auto simp: match_at_def)
  next
    case True
    then obtain rest where s: "c # cs = ''MUNICIPALITY'' @ '' OF'' @ rest"
      by (auto simp: alt_matches_def prefix_def)
    then have c: "c = CHR ''M''" by simp
    then have "is_word_char c" by (simp add: is_word_char_def is_upper_char_def)
    with True have "\<not> prev" by (simp add: word_boundary_def)
    moreover have "takeWhile is_word_char (''MUNICIPALITY'' @ '' OF'' @ rest) = ''MUNICIPALITY''"
      using blank_not_word by (simp add: is_word_char_def is_upper_char_def)
    ultimately show ?thesis using here unfolding s by simp
  qed
  with rest show ?case by simp
qed

lemma cleanGisName_idem_without_word:
  assumes "\<not> has_word ''MUNICIPALITY'' (toUpperCase x) \<or> \<not> has_word ''OF'' (toUpperCase x)"
  shows "cleanGisName (cleanGisName x) = cleanGisName x"
proof -
  from assms have "no_match [''MUNICIPALITY OF''] False (cleanGisName x)"
  proof
    assume "\<not> has_word ''MUNICIPALITY'' (toUpperCase x)"
    from word_survives_first_pass [OF single_words_municipality this]
    show ?thesis by (rule phrase_needs_municipality)
  next
    assume "\<not> has_word ''OF'' (toUpperCase x)"
    from word_survives_first_pass [OF single_words_of this]
    show ?thesis by (rule phrase_needs_of)
  qed
  then show ?thesis
    by (simp add: cleanGisName_idem_iff has_phrase_def)
qed

text \<open>
  C8, as stated: normalising a name twice gives the same as normalising it once. The
  candidate name \<open>Municipality Council of Kiama\<close> loses \<open>COUNCIL\<close> in the first pass,
  which brings \<open>MUNICIPALITY\<close> and \<open>OF\<close> together; the second pass removes that phrase.
\<close>

theorem gis_normalisation_not_idempotent:
  "cleanGisName ''Municipality Council of Kiama'' = ''MUNICIPALITY OF KIAMA'' \<and>
   cleanGisName (cleanGisName ''Municipality Council of Kiama'') = ''KIAMA'' \<and>
   cleanGisName (cleanGisName ''Municipality Council of Kiama'') \<noteq>
     cleanGisName ''Municipality Council of Kiama''"
  by code_simp

text \<open>
  C8, amended: the normalisation of the catalog names, which removes the single words
  \<open>CITY\<close>, \<open>SHIRE\<close>, \<open>REGIONAL\<close>, \<open>MUNICIPAL\<close> and \<open>COUNCIL\<close>, is idempotent on every
  string. The normalisation of the candidate names, which also removes phrases of several
  words, is idempotent on a string exactly when the normal form of the string does not
  contain the phrase \<open>MUNICIPALITY OF\<close>: that phrase is all a second pass can remove. So
  it is idempotent on every string that lacks the word \<open>MUNICIPALITY\<close> or lacks the word
  \<open>OF\<close> (in any case).
\<close>

theorem normalisation_idempotent:
  "cleanCouncilName (cleanCouncilName n) = cleanCouncilName n \<and>
   (cleanGisName (cleanGisName x) = cleanGisName x \<longleftrightarrow>
      \<not> has_phrase ''MUNICIPALITY OF'' (cleanGisName x)) \<and>
   (\<not> has_word ''MUNICIPALITY'' (toUpperCase x) \<or> \<not> has_word ''OF'' (toUpperCase x) \<longrightarrow>
      cleanGisName (cleanGisName x) = cleanGisName x)"
  using cleanCouncilName_idem cleanGisName_idem_iff cleanGisName_idem_without_word by blast

theorem normalisation_idempotent_witness:
  "cleanCouncilName (cleanCouncilName ''Lithgow City'') = cleanCouncilName ''Lithgow City'' \<and>
   has_word ''OF'' (toUpperCase ''Council of the City of Sydney'') \<and>
   cleanGisName (cleanGisName ''Council of the City of Sydney'') =
     cleanGisName ''Council of the City of Sydney'' \<and>
   has_word ''MUNICIPALITY'' (toUpperCase ''The Council of the Municipality of Hunters Hill'') \<and>
   has_word ''OF'' (toUpperCase ''The Council of the Municipality of Hunters Hill'') \<and>
   cleanGisName (cleanGisName ''The Council of the Municipality of Hunters Hill'') =
     cleanGisName ''The Council of the Municipality of Hunters Hill'' \<and>
   cleanGisName (cleanGisName ''Municipality Council of Kiama'') \<noteq>
     cleanGisName ''Municipality Council of Kiama''"
proof -
  let ?sydney = "''Council of the City of Sydney''"
  let ?hunters = "''The Council of the Municipality of Hunters Hill''"
  let ?kiama = "''Municipality Council of Kiama''"
  have sydney: "has_word ''OF'' (toUpperCase ?sydney)"
    "\<not> has_word ''MUNICIPALITY'' (toUpperCase ?sydney)"
    by code_simp+
  have hunters: "has_word ''MUNICIPALITY'' (toUpperCase ?hunters)"
    "has_word ''OF'' (toUpperCase ?hunters)"
    "\<not> has_phrase ''MUNICIPALITY OF'' (cleanGisName ?hunters)"
    by code_simp+
  have kiama: "has_phrase ''MUNICIPALITY OF'' (cleanGisName ?kiama)"
    by code_simp
  from normalisation_idempotent [of "''Lithgow City''" ?sydney] sydney(2)
  have one: "cleanCouncilName (cleanCouncilName ''Lithgow City'') = cleanCouncilName ''Lithgow City''"
    and two: "cleanGisName (cleanGisName ?sydney) = cleanGisName ?sydney"
    by blast+
  from normalisation_idempotent [of "''Lithgow City''" ?hunters] hunters(3)
  have three: "cleanGisName (cleanGisName ?hunters) = cleanGisName ?hunters"
    by blast
  from normalisation_idempotent [of "''Lithgow City''" ?kiama] kiama
  have four: "cleanGisName (cleanGisName ?kiama) \<noteq> cleanGisName ?kiama"
    by blast
  from one two three four sydney(1) hunters(1,2) show ?thesis by blast
qed
text \<open>
  C10, as stated: every non-empty candidate made up of qualifier words and whitespace has
  the empty normal form and resolves to the first record of a non-empty catalog. The
  claim leaves out the first step: when the mapping has an entry for the candidate, the
  mapped name decides, and here no council bears it. And \<open>City of\<close>, one of the phrases
  of the vocabulary, is not removed as a whole: the alternative \<open>CITY\<close> comes first, the
  normal form is \<open>OF\<close> and the catalog has no match for it.
\<close>

theorem qualifier_only_candidates_not_always_first:
  "cleanGisName ''City Council'' = [] \<and>
   findCouncilByName \<lparr>councils = [sydney], nameMapping = Some city_council_mapping\<rparr>
     (Some ''City Council'') = Inr None \<and>
   ''CITY OF'' \<in> set gis_qualifiers \<and>
   cleanGisName ''City of'' = ''OF'' \<and>
   findCouncilByName \<lparr>councils = [sydney], nameMapping = None\<rparr> (Some ''City of'') = Inr None"
  by code_simp

text \<open>
  C10, amended: every candidate made up of whitespace and the single qualifier words
  \<open>CITY\<close>, \<open>SHIRE\<close>, \<open>REGIONAL\<close>, \<open>MUNICIPAL\<close>, \<open>COUNCIL\<close> in any case (such as
  \<open>City Council\<close>) has the empty normal form. For every non-empty candidate whose normal
  form is empty and for which the first step misses (no mapping, or no entry for the
  candidate), and for every non-empty catalog, the resolution returns the first record of
  the catalog: the empty normal form is a substring of every normal form.
\<close>

theorem empty_normal_form_takes_first:
  assumes "g \<noteq> []" and "mapping_miss mc g" and "councils mc = c # cs"
  shows "(only_qualifier_words g \<longrightarrow> cleanGisName g = []) \<and>
         (cleanGisName g = [] \<longrightarrow> findCouncilByName mc (Some g) = Inr (Some c))"
proof -
  have "findCouncilByName mc (Some g) = Inr (Some c)" if "cleanGisName g = []"
  proof -
    from that have "fuzzy_match g c"
      by (simp add: fuzzy_match_def str_includes_def)
    with assms(3) have "fuzzy_find (councils mc) g = Some c"
      by (simp add: fuzzy_find_def)
    with resolution_after_miss [OF assms(2,1)] show ?thesis by simp
  qed
  with qualifier_only_normal_form show ?thesis by blast
qed

theorem empty_normal_form_takes_first_witness:
  "only_qualifier_words ''City Council'' \<and>
   cleanGisName ''City Council'' = [] \<and>
   findCouncilByName \<lparr>councils = [sydney, lithgow], nameMapping = Some sydney_mapping\<rparr>
     (Some ''City Council'') = Inr (Some sydney)"
proof -
  let ?mc = "\<lparr>councils = [sydney, lithgow], nameMapping = Some sydney_mapping\<rparr>"
  have nonempty: "''City Council'' \<noteq> []" by simp
  have words: "only_qualifier_words ''City Council''" by code_simp
  have miss: "mapping_miss ?mc ''City Council''" by code_simp
  have cat: "councils ?mc = sydney # [lithgow]" by simp
  from empty_normal_form_takes_first [OF nonempty miss cat] words
  show ?thesis by blast
qed
end
